theory Spec2Isabelle
  imports Complex_Main
begin

section \<open>Python numbers\<close>

text \<open>
  \<^verbatim>\<open>generate_icon.py\<close> computes every measurement as \<^verbatim>\<open>int(size * 0.08)\<close> and the
  like: an integer times a float literal, truncated. Python floats are IEEE binary64
  numbers, so \<^verbatim>\<open>0.06\<close> is not six hundredths and \<^verbatim>\<open>size * 0.06\<close> is rounded. A float
  is modelled by the rational number it stands for, and every float operation by the
  exact operation followed by \<open>rnd\<close>, rounding to the nearest number with a 53 bit
  significand, ties to the even significand. The exponent range of binary64 is not
  modelled (no overflow, no subnormal numbers): every value the script computes for a
  side length below \<open>2 ^ 1000\<close> lies inside the normal range.
\<close>

function bitlen :: "int \<Rightarrow> int" where
  "bitlen n = (if n \<le> 0 then 0 else 1 + bitlen (n div 2))"
  by pat_completeness auto
termination
  by (relation "measure nat") auto

declare bitlen.simps [simp del]

definition pow2 :: "int \<Rightarrow> rat" where
  "pow2 e = (if 0 \<le> e then 2 ^ nat e else 1 / 2 ^ nat (- e))"

text \<open>The binary exponent of a positive rational: \<open>pow2 (ilog2 a) \<le> a < pow2 (ilog2 a + 1)\<close>.\<close>

definition ilog2 :: "rat \<Rightarrow> int" where
  "ilog2 a = (let (p, q) = quotient_of a; e0 = bitlen p - bitlen q
              in if pow2 e0 \<le> a then e0 else e0 - 1)"

definition round_half_even :: "rat \<Rightarrow> int" where
  "round_half_even q = (let f = \<lfloor>q\<rfloor>; d = q - of_int f in
     if d < 1 / 2 then f else if 1 / 2 < d then f + 1 else if even f then f else f + 1)"

definition rnd :: "rat \<Rightarrow> rat" where
  "rnd x = (if x = 0 then 0 else
     let a = \<bar>x\<bar>; u = pow2 (ilog2 a - 52)
     in sgn x * of_int (round_half_even (a / u)) * u)"

text \<open>
  The numbers \<open>rnd\<close> returns: an integer of at most 53 bits times a power of two. The
  predicate is used in proofs only; \<open>rnd r = r\<close> decides it.
\<close>

definition is_double :: "rat \<Rightarrow> bool" where
  "is_double r = (\<exists>k j. r = of_int k * pow2 j \<and> \<bar>k\<bar> \<le> 2 ^ 53)"

text \<open>
  A float literal \<^verbatim>\<open>0.06\<close> is the double nearest to \<open>6 / 100\<close>; \<^verbatim>\<open>float(n)\<close>, and the
  conversion of the integer operand of a mixed operation, is the double nearest to \<open>n\<close>;
  \<^verbatim>\<open>p / q\<close> on two integers is the correctly rounded quotient (the script divides by
  \<^verbatim>\<open>2 * size\<close> inside loops over \<^verbatim>\<open>range(size)\<close> only, so never by zero); \<^verbatim>\<open>int(f)\<close>
  truncates towards zero.
\<close>

definition float_lit :: "int \<Rightarrow> int \<Rightarrow> rat" where
  "float_lit n d = rnd (of_int n / of_int d)"

definition py_float :: "int \<Rightarrow> rat" where
  "py_float n = rnd (of_int n)"

definition int_mul_float :: "int \<Rightarrow> rat \<Rightarrow> rat" where
  "int_mul_float n f = rnd (py_float n * f)"

definition int_add_float :: "int \<Rightarrow> rat \<Rightarrow> rat" where
  "int_add_float n f = rnd (py_float n + f)"

definition int_truediv :: "int \<Rightarrow> int \<Rightarrow> rat" where
  "int_truediv p q = rnd (of_int p / of_int q)"

definition py_int :: "rat \<Rightarrow> int" where
  "py_int f = (if 0 \<le> f then \<lfloor>f\<rfloor> else \<lceil>f\<rceil>)"

text \<open>\<^verbatim>\<open>int(size * c)\<close> for a float literal \<open>c\<close>, the form of every measurement.\<close>

definition scaled :: "int \<Rightarrow> rat \<Rightarrow> int" where
  "scaled sz c = py_int (int_mul_float sz c)"

text \<open>
  The size table holds integers and one float (\<^verbatim>\<open>83.5\<close>). \<^verbatim>\<open>base_size * scale\<close> is an
  integer product or a float product, \<^verbatim>\<open>in\<close> and \<^verbatim>\<open>==\<close> compare values across the two
  types, and an f-string formats with \<^verbatim>\<open>str\<close>.
\<close>

datatype pynum = PyInt int | PyFloat rat

fun py_mul :: "pynum \<Rightarrow> int \<Rightarrow> pynum" where
  "py_mul (PyInt a) s = PyInt (a * s)"
| "py_mul (PyFloat f) s = PyFloat (rnd (f * py_float s))"

fun py_to_int :: "pynum \<Rightarrow> int" where
  "py_to_int (PyInt a) = a"
| "py_to_int (PyFloat f) = py_int f"

fun py_eq :: "pynum \<Rightarrow> int \<Rightarrow> bool" where
  "py_eq (PyInt a) n = (a = n)"
| "py_eq (PyFloat f) n = (f = of_int n)"

fun py_value :: "pynum \<Rightarrow> rat" where
  "py_value (PyInt a) = of_int a"
| "py_value (PyFloat f) = f"

definition digit :: "int \<Rightarrow> char" where
  "digit d = ''0123456789'' ! nat d"

function digits :: "int \<Rightarrow> string" where
  "digits n = (if n < 10 then [digit n] else digits (n div 10) @ [digit (n mod 10)])"
  by pat_completeness auto
termination
  by (relation "measure nat") auto

declare digits.simps [simp del]

definition str_int :: "int \<Rightarrow> string" where
  "str_int n = (if n < 0 then ''-'' @ digits (- n) else digits n)"

text \<open>
  \<^verbatim>\<open>str\<close> of a float prints the shortest decimal that reads back as the same double.
  For a double whose exact decimal expansion has at most 15 significant digits and whose
  magnitude is in \<open>[1e-4, 1e16)\<close>, such as every literal of the size table, that is the
  exact expansion with at least one digit after the point; \<open>str_float\<close> computes it (up
  to 20 fractional digits) and is used on such values only.
\<close>

fun frac_digits :: "nat \<Rightarrow> rat \<Rightarrow> string" where
  "frac_digits 0 r = []"
| "frac_digits (Suc n) r =
     (let d = \<lfloor>10 * r\<rfloor>; r' = 10 * r - of_int d
      in digit d # (if r' = 0 then [] else frac_digits n r'))"

definition str_float :: "rat \<Rightarrow> string" where
  "str_float f = (let a = \<bar>f\<bar> in
     (if f < 0 then ''-'' else []) @ digits \<lfloor>a\<rfloor> @ ''.'' @ frac_digits 20 (a - of_int \<lfloor>a\<rfloor>))"

fun py_str :: "pynum \<Rightarrow> string" where
  "py_str (PyInt a) = str_int a"
| "py_str (PyFloat f) = str_float f"


section \<open>The Pillow canvas\<close>

text \<open>
  The script draws through Pillow (\<^verbatim>\<open>Image\<close>, \<^verbatim>\<open>ImageDraw\<close>), which is not part of the
  repository. The model keeps what Pillow documents:
  \<^item> an \<^verbatim>\<open>RGBA\<close> image is a grid of four 8 bit channels; \<^verbatim>\<open>Image.new\<close> fills it with
    \<open>(0, 0, 0, 0)\<close> and refuses a negative side;
  \<^item> \<^verbatim>\<open>ImageDraw.Draw\<close> on an \<^verbatim>\<open>RGBA\<close> image stores the fill colour, alpha included,
    into every pixel of the shape that lies on the canvas: it does not blend with what
    was there. Channels are clipped to \<open>0..255\<close>;
  \<^item> a rectangle covers its bounding box, both corners included; an ellipse and a
    polygon cover some of the pixels of their bounding box. Which ones is the
    rasteriser's business and is a parameter (\<open>ellipse_mask\<close>, \<open>polygon_mask\<close>);
  \<^item> a box with \<open>x1 < x0\<close> or \<open>y1 < y0\<close> is outside the documented contract of
    \<^verbatim>\<open>rectangle\<close> and \<^verbatim>\<open>ellipse\<close>: Pillow from 9.5 on raises \<^verbatim>\<open>ValueError\<close>, older
    releases draw the box with its corners swapped. The flag \<open>strict\<close> chooses;
  \<^item> \<^verbatim>\<open>resize\<close> returns a copy for the image's own size, refuses a side below 1 and
    otherwise returns an image of the requested size whose pixels the resampling
    filter computes (the parameter \<open>lanczos\<close>).
\<close>

type_synonym rgb = "int \<times> int \<times> int"
type_synonym rgba = "int \<times> int \<times> int \<times> int"
type_synonym box = "int \<times> int \<times> int \<times> int"

datatype py_error = ValueError | OSError

record image =
  width :: int
  height :: int
  pixel :: "int \<Rightarrow> int \<Rightarrow> rgba"

record pillow =
  strict :: bool
  ellipse_mask :: "box \<Rightarrow> int \<Rightarrow> int \<Rightarrow> bool"
  polygon_mask :: "(int \<times> int) list \<Rightarrow> int \<Rightarrow> int \<Rightarrow> bool"
  lanczos :: "image \<Rightarrow> int \<Rightarrow> int \<Rightarrow> int \<Rightarrow> rgba"

definition alpha :: "rgba \<Rightarrow> int" where
  "alpha c = (case c of (r, g, b, a) \<Rightarrow> a)"

definition with_alpha :: "rgb \<Rightarrow> int \<Rightarrow> rgba" where
  "with_alpha c a = (case c of (r, g, b) \<Rightarrow> (r, g, b, a))"

definition clip8 :: "int \<Rightarrow> int" where
  "clip8 v = (if v \<le> 0 then 0 else if v < 256 then v else 255)"

definition ink :: "rgba \<Rightarrow> rgba" where
  "ink c = (case c of (r, g, b, a) \<Rightarrow> (clip8 r, clip8 g, clip8 b, clip8 a))"

definition bind_err :: "py_error + 'a \<Rightarrow> ('a \<Rightarrow> py_error + 'b) \<Rightarrow> py_error + 'b" where
  "bind_err r f = (case r of Inl e \<Rightarrow> Inl e | Inr v \<Rightarrow> f v)"

definition image_new :: "int \<Rightarrow> int \<Rightarrow> py_error + image" where
  "image_new w h =
     (if w < 0 \<or> h < 0 then Inl ValueError
      else Inr \<lparr>width = w, height = h, pixel = (\<lambda>x y. (0, 0, 0, 0))\<rparr>)"

definition on_canvas :: "image \<Rightarrow> int \<Rightarrow> int \<Rightarrow> bool" where
  "on_canvas img x y = (0 \<le> x \<and> x < width img \<and> 0 \<le> y \<and> y < height img)"

text \<open>Store a colour into the pixels of the canvas that a shape covers.\<close>

definition paint :: "image \<Rightarrow> (int \<Rightarrow> int \<Rightarrow> bool) \<Rightarrow> rgba \<Rightarrow> image" where
  "paint img shape fill =
     img\<lparr>pixel := (\<lambda>x y. if on_canvas img x y \<and> shape x y then ink fill else pixel img x y)\<rparr>"

definition in_box :: "box \<Rightarrow> int \<Rightarrow> int \<Rightarrow> bool" where
  "in_box b x y = (case b of (x0, y0, x1, y1) \<Rightarrow> x0 \<le> x \<and> x \<le> x1 \<and> y0 \<le> y \<and> y \<le> y1)"

definition ordered :: "box \<Rightarrow> bool" where
  "ordered b = (case b of (x0, y0, x1, y1) \<Rightarrow> x0 \<le> x1 \<and> y0 \<le> y1)"

definition swapped :: "box \<Rightarrow> box" where
  "swapped b = (case b of (x0, y0, x1, y1) \<Rightarrow> (min x0 x1, min y0 y1, max x0 x1, max y0 y1))"

definition bounding_box :: "(int \<times> int) list \<Rightarrow> box" where
  "bounding_box ps =
     (fold min (map fst ps) (fst (hd ps)), fold min (map snd ps) (snd (hd ps)),
      fold max (map fst ps) (fst (hd ps)), fold max (map snd ps) (snd (hd ps)))"

definition point :: "image \<Rightarrow> int \<times> int \<Rightarrow> rgba \<Rightarrow> image" where
  "point img p fill = paint img (\<lambda>x y. (x, y) = p) fill"

definition fill_box :: "image \<Rightarrow> box \<Rightarrow> rgba \<Rightarrow> image" where
  "fill_box img b fill = paint img (in_box b) fill"

definition rectangle :: "pillow \<Rightarrow> image \<Rightarrow> box \<Rightarrow> rgba \<Rightarrow> py_error + image" where
  "rectangle pil img b fill =
     (if ordered b then Inr (fill_box img b fill)
      else if strict pil then Inl ValueError
      else Inr (fill_box img (swapped b) fill))"

definition ellipse :: "pillow \<Rightarrow> image \<Rightarrow> box \<Rightarrow> rgba \<Rightarrow> py_error + image" where
  "ellipse pil img b fill =
     (if ordered b then Inr (paint img (\<lambda>x y. in_box b x y \<and> ellipse_mask pil b x y) fill)
      else if strict pil then Inl ValueError
      else Inr (paint img (\<lambda>x y. in_box (swapped b) x y \<and> ellipse_mask pil (swapped b) x y) fill))"

definition polygon :: "pillow \<Rightarrow> image \<Rightarrow> (int \<times> int) list \<Rightarrow> rgba \<Rightarrow> image" where
  "polygon pil img ps fill =
     paint img (\<lambda>x y. in_box (bounding_box ps) x y \<and> polygon_mask pil ps x y) fill"

definition resize :: "pillow \<Rightarrow> image \<Rightarrow> int \<Rightarrow> int \<Rightarrow> py_error + image" where
  "resize pil img w h =
     (if w = width img \<and> h = height img then Inr img
      else if w < 1 \<or> h < 1 then Inl ValueError
      else Inr \<lparr>width = w, height = h,
                pixel = (\<lambda>x y. if 0 \<le> x \<and> x < w \<and> 0 \<le> y \<and> y < h
                                then ink (lanczos pil img w x y) else (0, 0, 0, 0))\<rparr>)"

text \<open>\<^verbatim>\<open>range(n)\<close>.\<close>

definition py_range :: "int \<Rightarrow> int list" where
  "py_range n = map int [0..<nat n]"

section \<open>The icon renderer\<close>

text \<open>
  \<^verbatim>\<open>create_gradient\<close>: two nested loops over \<^verbatim>\<open>range(size)\<close>, one \<^verbatim>\<open>draw.point\<close> per
  pixel.
\<close>

definition gradient_color :: "int \<Rightarrow> rgb \<Rightarrow> rgb \<Rightarrow> int \<Rightarrow> int \<Rightarrow> rgba" where
  "gradient_color sz color1 color2 x y =
     (case color1 of (r1, g1, b1) \<Rightarrow> case color2 of (r2, g2, b2) \<Rightarrow>
        let ratio = int_truediv (x + y) (2 * sz);
            r = py_int (int_add_float r1 (int_mul_float (r2 - r1) ratio));
            g = py_int (int_add_float g1 (int_mul_float (g2 - g1) ratio));
            b = py_int (int_add_float b1 (int_mul_float (b2 - b1) ratio))
        in (r, g, b, 255))"

definition gradient_row :: "int \<Rightarrow> rgb \<Rightarrow> rgb \<Rightarrow> image \<Rightarrow> int \<Rightarrow> image" where
  "gradient_row sz color1 color2 img y =
     foldl (\<lambda>im x. point im (x, y) (gradient_color sz color1 color2 x y)) img (py_range sz)"

definition create_gradient :: "int \<Rightarrow> rgb \<Rightarrow> rgb \<Rightarrow> py_error + image" where
  "create_gradient sz color1 color2 =
     bind_err (image_new sz sz)
       (\<lambda>img. Inr (foldl (gradient_row sz color1 color2) img (py_range sz)))"

text \<open>\<^verbatim>\<open>draw_rounded_rect\<close>: two rectangles and four corner ellipses, in this order.\<close>

definition draw_rounded_rect :: "pillow \<Rightarrow> image \<Rightarrow> box \<Rightarrow> int \<Rightarrow> rgba \<Rightarrow> py_error + image" where
  "draw_rounded_rect pil img coords radius fill =
     (case coords of (x1, y1, x2, y2) \<Rightarrow>
        bind_err (rectangle pil img (x1 + radius, y1, x2 - radius, y2) fill) (\<lambda>img.
        bind_err (rectangle pil img (x1, y1 + radius, x2, y2 - radius) fill) (\<lambda>img.
        bind_err (ellipse pil img (x1, y1, x1 + 2 * radius, y1 + 2 * radius) fill) (\<lambda>img.
        bind_err (ellipse pil img (x2 - 2 * radius, y1, x2, y1 + 2 * radius) fill) (\<lambda>img.
        bind_err (ellipse pil img (x1, y2 - 2 * radius, x1 + 2 * radius, y2) fill) (\<lambda>img.
        ellipse pil img (x2 - 2 * radius, y2 - 2 * radius, x2, y2) fill))))))"

text \<open>The measurements of \<^verbatim>\<open>create_icon\<close>, one definition per local variable.\<close>

definition color1 :: rgb where "color1 = (102, 126, 234)"
definition color2 :: rgb where "color2 = (118, 75, 162)"

definition center :: "int \<Rightarrow> int" where "center sz = sz div 2"
definition box_size :: "int \<Rightarrow> int" where "box_size sz = scaled sz (float_lit 5 10)"
definition box_left :: "int \<Rightarrow> int" where "box_left sz = center sz - box_size sz div 2"
definition box_top :: "int \<Rightarrow> int" where
  "box_top sz = center sz - box_size sz div 2 + scaled sz (float_lit 5 100)"
definition box_right :: "int \<Rightarrow> int" where "box_right sz = box_left sz + box_size sz"
definition box_bottom :: "int \<Rightarrow> int" where "box_bottom sz = box_top sz + box_size sz"
definition zipper_x :: "int \<Rightarrow> int" where "zipper_x sz = center sz"
definition zipper_width :: "int \<Rightarrow> int" where "zipper_width sz = scaled sz (float_lit 8 100)"
definition tooth_height :: "int \<Rightarrow> int" where "tooth_height sz = scaled sz (float_lit 4 100)"
definition tooth_gap :: "int \<Rightarrow> int" where "tooth_gap sz = scaled sz (float_lit 6 100)"
definition zipper_top :: "int \<Rightarrow> int" where
  "zipper_top sz = box_top sz + scaled sz (float_lit 8 100)"
definition zipper_bottom :: "int \<Rightarrow> int" where
  "zipper_bottom sz = box_bottom sz - scaled sz (float_lit 8 100)"
definition pull_size :: "int \<Rightarrow> int" where "pull_size sz = scaled sz (float_lit 8 100)"
definition pull_y :: "int \<Rightarrow> int" where "pull_y sz = zipper_top sz - pull_size sz"
definition crown_y :: "int \<Rightarrow> int" where "crown_y sz = scaled sz (float_lit 12 100)"
definition crown_height :: "int \<Rightarrow> int" where "crown_height sz = scaled sz (float_lit 12 100)"
definition crown_width :: "int \<Rightarrow> int" where "crown_width sz = scaled sz (float_lit 25 100)"
definition crown_left :: "int \<Rightarrow> int" where "crown_left sz = center sz - crown_width sz"
definition crown_right :: "int \<Rightarrow> int" where "crown_right sz = center sz + crown_width sz"
definition gem_size :: "int \<Rightarrow> int" where "gem_size sz = scaled sz (float_lit 25 1000)"

definition points :: "int \<Rightarrow> (int \<times> int) list" where
  "points sz =
     [(crown_left sz, crown_y sz + crown_height sz),
      (crown_left sz, crown_y sz + crown_height sz div 2),
      (crown_left sz + crown_width sz div 2, crown_y sz + crown_height sz),
      (center sz, crown_y sz),
      (crown_right sz - crown_width sz div 2, crown_y sz + crown_height sz),
      (crown_right sz, crown_y sz + crown_height sz div 2),
      (crown_right sz, crown_y sz + crown_height sz)]"

text \<open>
  The body of the teeth loop draws one rectangle: left of the centre line when
  \<^verbatim>\<open>toggle\<close> holds, right of it otherwise.
\<close>

definition tooth_box :: "int \<Rightarrow> int \<Rightarrow> int \<Rightarrow> int \<Rightarrow> bool \<Rightarrow> box" where
  "tooth_box zx zw th y toggle =
     (if toggle then (zx - zw, y, zx - 2, y + th) else (zx + 2, y, zx + zw, y + th))"

definition tooth_fill :: "bool \<Rightarrow> rgba" where
  "tooth_fill toggle = (if toggle then with_alpha color1 255 else with_alpha color2 255)"

text \<open>
  \<^verbatim>\<open>while y < zipper_bottom - tooth_height\<close>. The loop need not end (\<^verbatim>\<open>tooth_gap\<close> is 0
  for a small side), so it is a partial function: \<open>None\<close> is the run that never returns.
\<close>

partial_function (option) teeth_loop ::
  "pillow \<Rightarrow> int \<Rightarrow> int \<Rightarrow> int \<Rightarrow> int \<Rightarrow> int \<Rightarrow> int \<Rightarrow> bool \<Rightarrow> image \<Rightarrow> (py_error + image) option"
where
  "teeth_loop pil zx zw th gap zb y toggle img =
     (if y < zb - th then
        (case rectangle pil img (tooth_box zx zw th y toggle) (tooth_fill toggle) of
           Inl e \<Rightarrow> Some (Inl e)
         | Inr img' \<Rightarrow> teeth_loop pil zx zw th gap zb (y + gap) (\<not> toggle) img')
      else Some (Inr img))"

text \<open>What \<^verbatim>\<open>create_icon\<close> draws after the teeth: the pull, the crown and its gem.\<close>

definition draw_emblem :: "pillow \<Rightarrow> int \<Rightarrow> image \<Rightarrow> py_error + image" where
  "draw_emblem pil sz img =
     bind_err (ellipse pil img
        (center sz - pull_size sz, pull_y sz, center sz + pull_size sz, pull_y sz + pull_size sz * 2)
        (255, 215, 0, 255)) (\<lambda>img.
     ellipse pil (polygon pil img (points sz) (255, 215, 0, 255))
        (center sz - gem_size sz, crown_y sz + gem_size sz,
         center sz + gem_size sz, crown_y sz + gem_size sz * 3)
        (255, 100, 100, 255))"

definition create_icon :: "pillow \<Rightarrow> int \<Rightarrow> (py_error + image) option" where
  "create_icon pil sz =
     (case bind_err (create_gradient sz color1 color2) (\<lambda>img.
             draw_rounded_rect pil img (box_left sz, box_top sz, box_right sz, box_bottom sz)
               (scaled sz (float_lit 5 100)) (255, 255, 255, 230)) of
        Inl e \<Rightarrow> Some (Inl e)
      | Inr img \<Rightarrow>
          (case teeth_loop pil (zipper_x sz) (zipper_width sz) (tooth_height sz) (tooth_gap sz)
                  (zipper_bottom sz) (zipper_top sz) True img of
             None \<Rightarrow> None
           | Some (Inl e) \<Rightarrow> Some (Inl e)
           | Some (Inr img') \<Rightarrow> Some (draw_emblem pil sz img')))"


section \<open>The export pipeline\<close>

text \<open>
  \<^verbatim>\<open>main\<close> writes into one fixed directory. The world it acts on is that directory
  (whether it exists and is writable, and its entries by name) and the console.
  \<^verbatim>\<open>icon.save\<close> and \<^verbatim>\<open>open(..., "w")\<close> fail with \<^verbatim>\<open>OSError\<close> when the directory cannot be
  written and replace the entry of that name otherwise. A file is modelled by the
  value written: the image handed to \<^verbatim>\<open>save\<close>, the dictionary handed to \<^verbatim>\<open>json.dump\<close>.
\<close>

record manifest_entry =
  filename :: string
  idiom :: string
  scale :: string
  size' :: string

record manifest_info =
  author :: string
  version :: int

record manifest =
  images :: "manifest_entry list"
  info :: manifest_info

datatype file_content = PNG image | JSON manifest

record world =
  dir_ok :: bool
  files :: "string \<Rightarrow> file_content option"
  stdout :: "string list"

definition print :: "world \<Rightarrow> string \<Rightarrow> world" where
  "print w line = w\<lparr>stdout := stdout w @ [line]\<rparr>"

definition write_file :: "world \<Rightarrow> string \<Rightarrow> file_content \<Rightarrow> py_error + world" where
  "write_file w name f =
     (if dir_ok w then Inr (w\<lparr>files := (files w)(name \<mapsto> f)\<rparr>) else Inl OSError)"

definition icon_filename :: "int \<Rightarrow> string" where
  "icon_filename actual_size =
     ''icon_'' @ str_int actual_size @ ''x'' @ str_int actual_size @ ''.png''"

definition idiom_of :: "pynum \<Rightarrow> string" where
  "idiom_of base_size =
     (let idiom = (if list_ex (py_eq base_size) [20, 29, 40, 60] then ''iphone'' else ''ipad'')
      in if py_eq base_size 1024 then ''ios-marketing'' else idiom)"

definition entry_of :: "pynum \<Rightarrow> int \<Rightarrow> manifest_entry" where
  "entry_of base_size scale_factor =
     \<lparr>filename = icon_filename (py_to_int (py_mul base_size scale_factor)),
      idiom = idiom_of base_size,
      scale = str_int scale_factor @ ''x'',
      size' = py_str base_size @ ''x'' @ py_str base_size\<rparr>"

text \<open>One round of the \<^verbatim>\<open>for\<close> loop of \<^verbatim>\<open>main\<close>, and the loop.\<close>

definition export_one ::
  "pillow \<Rightarrow> image \<Rightarrow> pynum \<times> int \<Rightarrow> world \<times> manifest_entry list
    \<Rightarrow> py_error + world \<times> manifest_entry list" where
  "export_one pil master spec st =
     (case spec of (base_size, scale_factor) \<Rightarrow> case st of (w, imgs) \<Rightarrow>
        let actual_size = py_to_int (py_mul base_size scale_factor);
            fname = icon_filename actual_size
        in bind_err (resize pil master actual_size actual_size) (\<lambda>icon.
           bind_err (write_file w fname (PNG icon)) (\<lambda>w'.
           Inr (print w' (''Created: '' @ fname), imgs @ [entry_of base_size scale_factor]))))"

fun export_loop ::
  "pillow \<Rightarrow> image \<Rightarrow> (pynum \<times> int) list \<Rightarrow> world \<times> manifest_entry list
    \<Rightarrow> py_error + world \<times> manifest_entry list" where
  "export_loop pil master [] st = Inr st"
| "export_loop pil master (spec # rest) st =
     bind_err (export_one pil master spec st) (export_loop pil master rest)"

text \<open>
  The run of \<^verbatim>\<open>main\<close> over a size table: what it leaves behind is the world, and its
  locals \<^verbatim>\<open>master\<close> and \<^verbatim>\<open>contents\<close>. The table is a parameter; \<^verbatim>\<open>main\<close> runs it on
  \<^verbatim>\<open>sizes\<close>.
\<close>

record outcome =
  run_master :: image
  run_contents :: manifest
  run_env :: world

definition pipeline :: "pillow \<Rightarrow> (pynum \<times> int) list \<Rightarrow> world \<Rightarrow> (py_error + outcome) option" where
  "pipeline pil table w =
     (case create_icon pil 1024 of
        None \<Rightarrow> None
      | Some (Inl e) \<Rightarrow> Some (Inl e)
      | Some (Inr m) \<Rightarrow>
          Some (bind_err (export_loop pil m table (w, [])) (\<lambda>st. case st of (w', imgs) \<Rightarrow>
                  let c = \<lparr>images = imgs, info = \<lparr>author = ''xcode'', version = 1\<rparr>\<rparr>
                  in bind_err (write_file w' ''Contents.json'' (JSON c)) (\<lambda>w''.
                     Inr \<lparr>run_master = m, run_contents = c,
                          run_env = print w'' ''Created: Contents.json''\<rparr>))))"

definition sizes :: "(pynum \<times> int) list" where
  "sizes =
     [(PyInt 20, 1), (PyInt 20, 2), (PyInt 20, 3),
      (PyInt 29, 1), (PyInt 29, 2), (PyInt 29, 3),
      (PyInt 40, 1), (PyInt 40, 2), (PyInt 40, 3),
      (PyInt 60, 2), (PyInt 60, 3),
      (PyInt 76, 1), (PyInt 76, 2),
      (PyFloat (float_lit 835 10), 2),
      (PyInt 1024, 1)]"

definition main :: "pillow \<Rightarrow> world \<Rightarrow> (py_error + outcome) option" where
  "main pil w = pipeline pil sizes w"

section \<open>What the specification says, in its own words\<close>

text \<open>
  The specification gives the pixel size of a Size Spec as \<open>round(logical * scale)\<close>
  and the master size as the largest of them.
\<close>

definition rounded_size :: "pynum \<times> int \<Rightarrow> int" where
  "rounded_size spec = (case spec of (logical, s) \<Rightarrow> round (py_value logical * of_int s))"

definition max_actual_size :: "(pynum \<times> int) list \<Rightarrow> int" where
  "max_actual_size table = fold max (map rounded_size table) 0"

section \<open>The teeth as a list\<close>

text \<open>
  The teeth loop draws rectangles only. Its result is compared with painting an explicit
  list of boxes, one after the other: tooth number \<open>k\<close> starts \<open>k\<close> gaps below the first
  and lies left of the centre line when \<open>k\<close> is even. \<open>tooth_count\<close> is the number of
  rounds, the least \<open>k\<close> with \<open>y + k * gap \<ge> zb - th\<close>.
\<close>

definition tooth_count :: "int \<Rightarrow> int \<Rightarrow> int \<Rightarrow> int \<Rightarrow> nat" where
  "tooth_count gap y zb th = nat ((zb - th - y + gap - 1) div gap)"

definition teeth :: "int \<Rightarrow> int \<Rightarrow> int \<Rightarrow> int \<Rightarrow> int \<Rightarrow> bool \<Rightarrow> nat \<Rightarrow> (box \<times> rgba) list" where
  "teeth zx zw th gap y toggle count =
     map (\<lambda>k. (tooth_box zx zw th (y + int k * gap) (toggle = even k), tooth_fill (toggle = even k)))
       [0..<count]"

definition fill_boxes :: "image \<Rightarrow> (box \<times> rgba) list \<Rightarrow> image" where
  "fill_boxes img bs = foldl (\<lambda>im (b, c). fill_box im b c) img bs"

section \<open>Notions used in the statements\<close>

text \<open>
  The number of pixel columns and rows a box covers (both corners are included), and the
  pixel at a position of the canvas a run returns.
\<close>

definition box_columns :: "box \<Rightarrow> int" where
  "box_columns b = (case b of (x0, y0, x1, y1) \<Rightarrow> x1 - x0 + 1)"

definition box_rows :: "box \<Rightarrow> int" where
  "box_rows b = (case b of (x0, y0, x1, y1) \<Rightarrow> y1 - y0 + 1)"

definition returned_pixel :: "(py_error + image) option \<Rightarrow> int \<Rightarrow> int \<Rightarrow> (py_error + rgba) option" where
  "returned_pixel r x y = map_option (map_sum id (\<lambda>img. pixel img x y)) r"

text \<open>
  The number a string of decimal digits stands for; it reads \<open>digits\<close> back.
\<close>

definition digits_value :: "string \<Rightarrow> int" where
  "digits_value cs = foldl (\<lambda>acc c. 10 * acc + (of_char c - 48)) 0 cs"

text \<open>
  The pixel size \<^verbatim>\<open>main\<close> computes for a Size Spec, \<^verbatim>\<open>int(base_size * scale)\<close>, and the
  directory after the \<^verbatim>\<open>for\<close> loop: every spec whose resize succeeded has stored its
  icon under its file name, a later spec replacing an earlier one of the same name.
\<close>

definition actual_size :: "pynum \<times> int \<Rightarrow> int" where
  "actual_size spec = (case spec of (base_size, scale_factor) \<Rightarrow> py_to_int (py_mul base_size scale_factor))"

fun icon_files ::
  "pillow \<Rightarrow> image \<Rightarrow> (pynum \<times> int) list \<Rightarrow> (string \<Rightarrow> file_content option)
    \<Rightarrow> (string \<Rightarrow> file_content option)" where
  "icon_files pil m [] f = f"
| "icon_files pil m (spec # rest) f =
     icon_files pil m rest
       (case resize pil m (actual_size spec) (actual_size spec) of
          Inr icon \<Rightarrow> f(icon_filename (actual_size spec) \<mapsto> PNG icon)
        | Inl e \<Rightarrow> f)"

text \<open>
  The side of the master canvas of a run, and the idiom rule as the specification words
  it: 1024 is the store listing, 20, 29, 40 and 60 are the phone, everything else the
  tablet.
\<close>

definition master_side :: "(py_error + outcome) option \<Rightarrow> (py_error + int) option" where
  "master_side r = map_option (map_sum id (\<lambda>out. width (run_master out))) r"

definition idiom_rule :: "pynum \<Rightarrow> string" where
  "idiom_rule logical =
     (if py_eq logical 1024 then ''ios-marketing''
      else if py_eq logical 20 \<or> py_eq logical 29 \<or> py_eq logical 40 \<or> py_eq logical 60
      then ''iphone'' else ''ipad'')"

text \<open>A pixel within one unit per colour channel of a colour.\<close>

definition within_one :: "rgba \<Rightarrow> rgb \<Rightarrow> bool" where
  "within_one p c = (case p of (r, g, b, a) \<Rightarrow> case c of (r', g', b') \<Rightarrow>
     \<bar>r - r'\<bar> \<le> 1 \<and> \<bar>g - g'\<bar> \<le> 1 \<and> \<bar>b - b'\<bar> \<le> 1)"

text \<open>
  Two predicates for the statements about the canvas: a colour whose stored alpha is 255
  or 230, and a square canvas of side \<open>n\<close> whose pixels all have such an alpha.
\<close>

definition solid :: "rgba \<Rightarrow> bool" where
  "solid c = (alpha (ink c) = 255 \<or> alpha (ink c) = 230)"

definition canvas_ok :: "int \<Rightarrow> image \<Rightarrow> bool" where
  "canvas_ok n img = (width img = n \<and> height img = n \<and>
     (\<forall>x y. on_canvas img x y \<longrightarrow> alpha (pixel img x y) = 255 \<or> alpha (pixel img x y) = 230))"

text \<open>
  One instance of the Pillow parameters and one world, for statements about a concrete
  run: ellipses and polygons fill their bounding box, resampling takes the nearest
  pixel, coordinates are checked; the directory is writable and empty.
\<close>

definition coarse_pillow :: pillow where
  "coarse_pillow =
     \<lparr>strict = True, ellipse_mask = (\<lambda>b x y. True), polygon_mask = (\<lambda>ps x y. True),
      lanczos = (\<lambda>img w x y. pixel img (x * width img div w) (y * height img div w))\<rparr>"

definition empty_dir :: world where
  "empty_dir = \<lparr>dir_ok = True, files = (\<lambda>name. None), stdout = []\<rparr>"

text \<open>
  The pixels each stage of \<^verbatim>\<open>create_icon\<close> writes. A rectangle whose corners are out of
  order is drawn, when it is drawn at all, with its corners swapped. An ellipse covers
  the pixels of its bounding box that the rasteriser selects. The rounded box is the two
  rectangles and four corner ellipses of \<^verbatim>\<open>draw_rounded_rect\<close>, the teeth are the boxes of
  the list of teeth (empty when the loop is not entered), and the emblem is the pull, the
  crown polygon and the gem.
\<close>

definition drawn_box :: "box \<Rightarrow> box" where
  "drawn_box b = (if ordered b then b else swapped b)"

definition in_ellipse :: "pillow \<Rightarrow> box \<Rightarrow> int \<Rightarrow> int \<Rightarrow> bool" where
  "in_ellipse pil b x y = (in_box b x y \<and> ellipse_mask pil b x y)"

definition drawn_teeth :: "(box \<times> rgba) list \<Rightarrow> (box \<times> rgba) list" where
  "drawn_teeth bs = map (\<lambda>(b, c). (drawn_box b, c)) bs"

definition box_covers :: "pillow \<Rightarrow> int \<Rightarrow> int \<Rightarrow> int \<Rightarrow> bool" where
  "box_covers pil n x y =
     (let x1 = box_left n; y1 = box_top n; x2 = box_right n; y2 = box_bottom n;
          radius = scaled n (float_lit 5 100)
      in in_box (x1 + radius, y1, x2 - radius, y2) x y \<or>
         in_box (x1, y1 + radius, x2, y2 - radius) x y \<or>
         in_ellipse pil (x1, y1, x1 + 2 * radius, y1 + 2 * radius) x y \<or>
         in_ellipse pil (x2 - 2 * radius, y1, x2, y1 + 2 * radius) x y \<or>
         in_ellipse pil (x1, y2 - 2 * radius, x1 + 2 * radius, y2) x y \<or>
         in_ellipse pil (x2 - 2 * radius, y2 - 2 * radius, x2, y2) x y)"

definition teeth_cover :: "int \<Rightarrow> int \<Rightarrow> int \<Rightarrow> bool" where
  "teeth_cover n x y =
     list_ex (\<lambda>(b, c). in_box (drawn_box b) x y)
       (teeth (zipper_x n) (zipper_width n) (tooth_height n) (tooth_gap n) (zipper_top n) True
          (tooth_count (tooth_gap n) (zipper_top n) (zipper_bottom n) (tooth_height n)))"

definition emblem_covers :: "pillow \<Rightarrow> int \<Rightarrow> int \<Rightarrow> int \<Rightarrow> bool" where
  "emblem_covers pil n x y =
     (in_ellipse pil
        (center n - pull_size n, pull_y n, center n + pull_size n, pull_y n + pull_size n * 2) x y \<or>
      (in_box (bounding_box (points n)) x y \<and> polygon_mask pil (points n) x y) \<or>
      in_ellipse pil
        (center n - gem_size n, crown_y n + gem_size n,
         center n + gem_size n, crown_y n + gem_size n * 3) x y)"

section \<open>Facts about rounding\<close>

text \<open>
  What the proofs below need from \<open>rnd\<close>: it never crosses a double. A double below
  \<open>x\<close> stays below \<open>rnd x\<close>, a double above \<open>x\<close> stays above it.
\<close>

lemma pow2_powi: "pow2 e = 2 powi e"
  by (simp add: pow2_def power_int_def inverse_eq_divide power_one_over)

lemma pow2_pos: "0 < pow2 e"
  by (simp add: pow2_powi)

lemma pow2_add: "pow2 (a + b) = pow2 a * pow2 b"
  by (simp add: pow2_powi power_int_add)

lemma pow2_nat: "0 \<le> e \<Longrightarrow> pow2 e = of_int (2 ^ nat e)"
  by (simp add: pow2_def)

lemma pow2_mono: "a \<le> b \<Longrightarrow> pow2 a \<le> pow2 b"
  by (simp add: pow2_powi power_int_increasing)

lemma bitlen_bounds:
  "0 < n \<Longrightarrow> 1 \<le> bitlen n \<and> 2 ^ nat (bitlen n - 1) \<le> n \<and> n < 2 ^ nat (bitlen n)"
proof (induction n rule: bitlen.induct)
  case (1 n)
  show ?case
  proof (cases "n = 1")
    case True
    then show ?thesis by (simp add: bitlen.simps)
  next
    case False
    with 1 have pos: "0 < n div 2" by simp
    let ?b = "bitlen (n div 2)"
    from 1 pos have ih: "1 \<le> ?b" "2 ^ nat (?b - 1) \<le> n div 2" "n div 2 < 2 ^ nat ?b"
      by simp_all
    have bl: "bitlen n = 1 + ?b" using 1(2) by (subst bitlen.simps) simp
    have e1: "nat ?b = Suc (nat (?b - 1))" using ih(1) by simp
    have e2: "nat (1 + ?b) = Suc (nat ?b)" using ih(1) by simp
    have "(2::int) ^ nat ?b = 2 * 2 ^ nat (?b - 1)" by (subst e1) simp
    also have "\<dots> \<le> n" using ih(2) by simp
    finally have "2 ^ nat (bitlen n - 1) \<le> n" by (simp add: bl)
    moreover have "n < 2 ^ nat (bitlen n)" using ih(3) by (simp add: bl e2)
    ultimately show ?thesis using ih(1) by (simp add: bl)
  qed
qed

lemma ilog2_bounds:
  assumes "0 < a"
  shows "pow2 (ilog2 a) \<le> a \<and> a < pow2 (ilog2 a + 1)"
proof -
  obtain p q where pq: "quotient_of a = (p, q)" by (cases "quotient_of a")
  then have q: "0 < q" and a: "a = of_int p / of_int q"
    using quotient_of_denom_pos quotient_of_div by blast+
  with assms have p: "0 < p" by (simp add: zero_less_divide_iff)
  let ?e0 = "bitlen p - bitlen q"
  from bitlen_bounds[OF p] bitlen_bounds[OF q]
  have bp: "1 \<le> bitlen p" "2 ^ nat (bitlen p - 1) \<le> p" "p < 2 ^ nat (bitlen p)"
    and bq: "1 \<le> bitlen q" "2 ^ nat (bitlen q - 1) \<le> q" "q < 2 ^ nat (bitlen q)"
    by simp_all
  have P1: "pow2 (bitlen p - 1) \<le> of_int p"
    using bp by (simp add: pow2_nat)
  have P2: "(of_int p :: rat) < pow2 (bitlen p)"
    using bp by (simp add: pow2_nat)
  have Q1: "pow2 (bitlen q - 1) \<le> of_int q"
    using bq by (simp add: pow2_nat)
  have Q2: "(of_int q :: rat) < pow2 (bitlen q)"
    using bq by (simp add: pow2_nat)
  have qr: "(0::rat) < of_int q" using q by simp
  have up: "a < pow2 (?e0 + 1)"
  proof -
    have "pow2 (?e0 + 1) * of_int q \<ge> pow2 (?e0 + 1) * pow2 (bitlen q - 1)"
      using Q1 pow2_pos[of "?e0 + 1"] by simp
    also have "pow2 (?e0 + 1) * pow2 (bitlen q - 1) = pow2 (bitlen p)"
      by (simp add: pow2_add[symmetric])
    finally have "of_int p < pow2 (?e0 + 1) * of_int q" using P2 by simp
    then show ?thesis using qr by (simp add: a pos_divide_less_eq)
  qed
  have lo: "pow2 (?e0 - 1) \<le> a"
  proof -
    have "pow2 (?e0 - 1) * of_int q \<le> pow2 (?e0 - 1) * pow2 (bitlen q)"
      using Q2 pow2_pos[of "?e0 - 1"] by simp
    also have "pow2 (?e0 - 1) * pow2 (bitlen q) = pow2 (bitlen p - 1)"
      by (simp add: pow2_add[symmetric])
    finally have "pow2 (?e0 - 1) * of_int q \<le> of_int p" using P1 by simp
    then show ?thesis using qr by (simp add: a pos_le_divide_eq)
  qed
  show ?thesis
  proof (cases "pow2 ?e0 \<le> a")
    case True
    then have "ilog2 a = ?e0" by (simp add: ilog2_def pq)
    with True up show ?thesis by simp
  next
    case False
    then have "ilog2 a = ?e0 - 1" by (simp add: ilog2_def pq)
    with False lo show ?thesis by simp
  qed
qed

lemma round_half_even_bounds: "\<lfloor>q\<rfloor> \<le> round_half_even q \<and> round_half_even q \<le> \<lceil>q\<rceil>"
proof -
  have "q - of_int \<lfloor>q\<rfloor> \<noteq> 0 \<Longrightarrow> \<lceil>q\<rceil> = \<lfloor>q\<rfloor> + 1"
    by (metis ceiling_altdef eq_iff_diff_eq_0)
  moreover have "q - of_int \<lfloor>q\<rfloor> = 0 \<Longrightarrow> round_half_even q = \<lfloor>q\<rfloor>"
    by (simp add: round_half_even_def Let_def)
  ultimately show ?thesis
    by (cases "q - of_int \<lfloor>q\<rfloor> = 0") (auto simp: round_half_even_def Let_def ceiling_altdef)
qed


lemma rnd_pos:
  assumes "0 < x"
  obtains m u e where "rnd x = of_int m * u" "u = pow2 (e - 52)" "0 < u"
    "m = round_half_even (x / u)" "pow2 e = 2 ^ 52 * u" "2 ^ 52 * u \<le> x" "2 ^ 52 \<le> m"
proof -
  define e where "e = ilog2 x"
  define u where "u = pow2 (e - 52)"
  define m where "m = round_half_even (x / u)"
  have u: "0 < u" by (simp add: u_def pow2_pos)
  have "pow2 e = pow2 (52 + (e - 52))" by simp
  also have "\<dots> = pow2 52 * u" unfolding u_def by (rule pow2_add)
  finally have pe: "pow2 e = 2 ^ 52 * u" by (simp add: pow2_def)
  have lo: "2 ^ 52 * u \<le> x" using ilog2_bounds[OF assms] by (simp add: e_def[symmetric] pe)
  then have "2 ^ 52 \<le> x / u" using u by (simp add: pos_le_divide_eq)
  then have "(2 ^ 52 :: int) \<le> \<lfloor>x / u\<rfloor>" by (subst le_floor_iff) simp
  then have m: "2 ^ 52 \<le> m" using round_half_even_bounds[of "x / u"] unfolding m_def by linarith
  have "rnd x = of_int m * u"
    using assms by (simp add: rnd_def Let_def m_def u_def e_def)
  then show ?thesis using that u pe lo m by (simp add: u_def m_def)
qed

lemma rnd_lower_pos:
  assumes x: "0 < x" and r: "r = of_int k * pow2 j" and k: "k \<le> 2 ^ 53" and le: "r \<le> x"
  shows "r \<le> rnd x"
proof -
  from rnd_pos[OF x] obtain m u e where R: "rnd x = of_int m * u" "u = pow2 (e - 52)" "0 < u"
    "m = round_half_even (x / u)" "pow2 e = 2 ^ 52 * u" "2 ^ 52 * u \<le> x" "2 ^ 52 \<le> m"
    by blast
  show ?thesis
  proof (cases "e - 52 \<le> j")
    case True
    define d where "d = nat (j - (e - 52))"
    have "pow2 j = pow2 (int d + (e - 52))" using True by (simp add: d_def)
    also have "\<dots> = pow2 (int d) * u" unfolding R(2) by (rule pow2_add)
    finally have pj: "pow2 j = of_int (2 ^ d) * u" by (simp add: pow2_def)
    have rK: "r = of_int (k * 2 ^ d) * u" by (simp add: r pj)
    then have "of_int (k * 2 ^ d) \<le> x / u" using le R(3) by (simp add: pos_le_divide_eq)
    then have "k * 2 ^ d \<le> \<lfloor>x / u\<rfloor>" by (simp add: le_floor_iff)
    then have "k * 2 ^ d \<le> m" using round_half_even_bounds[of "x / u"] R(4) by simp
    then have "(of_int (k * 2 ^ d) :: rat) \<le> of_int m" by (simp only: of_int_le_iff)
    then show ?thesis using R(3) by (simp only: rK R(1) mult_le_cancel_right_pos)
  next
    case False
    then have "j \<le> e - 53" by simp
    then have "pow2 j \<le> pow2 (e - 53)" by (rule pow2_mono)
    moreover have "pow2 e = pow2 (53 + (e - 53))" by simp
    then have "pow2 e = 2 ^ 53 * pow2 (e - 53)" by (simp only: pow2_add) (simp add: pow2_def)
    moreover have "of_int k * pow2 j \<le> 2 ^ 53 * pow2 j"
      using k pow2_pos[of j] by (simp add: mult_le_cancel_right_pos)
    ultimately have "r \<le> pow2 e" by (simp add: r)
    also have "\<dots> \<le> of_int m * u" using R(7) R(3) by (simp add: R(5))
    finally show ?thesis by (simp add: R(1))
  qed
qed

lemma round_half_even_int: "round_half_even (of_int n) = n"
  by (simp add: round_half_even_def)

lemma rnd_upper_pos:
  assumes x: "0 < x" and r: "r = of_int k * pow2 j" and k: "k \<le> 2 ^ 53" and le: "x \<le> r"
  shows "rnd x \<le> r"
proof -
  from rnd_pos[OF x] obtain m u e where R: "rnd x = of_int m * u" "u = pow2 (e - 52)" "0 < u"
    "m = round_half_even (x / u)" "pow2 e = 2 ^ 52 * u" "2 ^ 52 * u \<le> x" "2 ^ 52 \<le> m"
    by blast
  have up: "m \<le> K" if "x \<le> of_int K * u" for K
  proof -
    from that have "x / u \<le> of_int K" using R(3) by (simp add: pos_divide_le_eq)
    then have "\<lceil>x / u\<rceil> \<le> K" by (simp add: ceiling_le_iff)
    then show ?thesis using round_half_even_bounds[of "x / u"] R(4) by simp
  qed
  show ?thesis
  proof (cases "e - 52 \<le> j")
    case True
    define d where "d = nat (j - (e - 52))"
    have "pow2 j = pow2 (int d + (e - 52))" using True by (simp add: d_def)
    also have "\<dots> = pow2 (int d) * u" unfolding R(2) by (rule pow2_add)
    finally have pj: "pow2 j = of_int (2 ^ d) * u" by (simp add: pow2_def)
    have rK: "r = of_int (k * 2 ^ d) * u" by (simp add: r pj)
    then have "m \<le> k * 2 ^ d" using le up by simp
    then have "(of_int m :: rat) \<le> of_int (k * 2 ^ d)" by (simp only: of_int_le_iff)
    then show ?thesis using R(3) by (simp only: rK R(1) mult_le_cancel_right_pos)
  next
    case False
    then have "j \<le> e - 53" by simp
    then have "pow2 j \<le> pow2 (e - 53)" by (rule pow2_mono)
    moreover have "pow2 e = pow2 (53 + (e - 53))" by simp
    then have "pow2 e = 2 ^ 53 * pow2 (e - 53)" by (simp only: pow2_add) (simp add: pow2_def)
    moreover have "of_int k * pow2 j \<le> 2 ^ 53 * pow2 j"
      using k pow2_pos[of j] by (simp add: mult_le_cancel_right_pos)
    ultimately have "r \<le> pow2 e" by (simp add: r)
    with le R(6) have xe: "x = pow2 e" "r = pow2 e" by (simp_all add: R(5))
    have "x \<le> of_int (2 ^ 52) * u" using xe by (simp add: R(5))
    then have "m \<le> 2 ^ 52" by (rule up)
    with R(7) have "m = 2 ^ 52" by simp
    then have "rnd x = 2 ^ 52 * u" by (simp add: R(1))
    then show ?thesis by (simp add: xe(2) R(5))
  qed
qed

lemma rnd_minus: "rnd (- x) = - rnd x"
  by (simp add: rnd_def Let_def)

lemma rnd_nonneg: "0 \<le> x \<Longrightarrow> 0 \<le> rnd x"
proof (cases "x = 0")
  case True
  then show ?thesis by (simp add: rnd_def)
next
  case False
  assume "0 \<le> x"
  with False have "0 < x" by simp
  from rnd_pos[OF this] obtain m :: int and u :: rat where R: "rnd x = of_int m * u" "0 < u" "2 ^ 52 \<le> m"
    by blast
  moreover have "(0::int) \<le> 2 ^ 52" by simp
  ultimately have "0 \<le> m" by linarith
  then show ?thesis using R by simp
qed


lemma rnd_ge: 
  assumes "is_double r" "r \<le> x" shows "r \<le> rnd x"
proof -
  from assms(1) obtain k j where r: "r = of_int k * pow2 j" and k: "\<bar>k\<bar> \<le> 2 ^ 53"
    unfolding is_double_def by blast
  consider "x = 0" | "0 < x" "r \<le> 0" | "0 < x" "0 < r" | "x < 0" by linarith
  then show ?thesis
  proof cases
    case 1
    then show ?thesis using assms(2) by (simp add: rnd_def)
  next
    case 2
    then show ?thesis using rnd_nonneg[of x] by simp
  next
    case 3
    from k have "k \<le> 2 ^ 53" by simp
    from rnd_lower_pos[OF 3(1) r this assms(2)] show ?thesis .
  next
    case 4
    have nr: "- r = of_int (- k) * pow2 j" by (simp add: r)
    from k have "- k \<le> 2 ^ 53" by simp
    from rnd_upper_pos[OF _ nr this, of "- x"] 4 assms(2)
    have "rnd (- x) \<le> - r" by simp
    then show ?thesis by (simp add: rnd_minus)
  qed
qed

lemma is_double_minus: "is_double r \<Longrightarrow> is_double (- r)"
  unfolding is_double_def
  by (metis abs_minus_cancel mult_minus_left of_int_minus)

lemma rnd_le:
  assumes "is_double r" "x \<le> r" shows "rnd x \<le> r"
proof -
  have "is_double (- r)" using assms(1) by (rule is_double_minus)
  moreover have "- r \<le> - x" using assms(2) by simp
  ultimately have "- r \<le> rnd (- x)" by (rule rnd_ge)
  then show ?thesis by (simp add: rnd_minus)
qed

lemma rnd_id: "is_double r \<Longrightarrow> rnd r = r"
  using rnd_ge[of r r] rnd_le[of r r] by simp

lemma is_double_int: "\<bar>n\<bar> \<le> 2 ^ 53 \<Longrightarrow> is_double (of_int n)"
  unfolding is_double_def by (rule exI[of _ n], rule exI[of _ 0]) (simp add: pow2_def)

lemma is_double_frac: "\<bar>n\<bar> \<le> 2 ^ 53 \<Longrightarrow> is_double (of_int n / 2 ^ d)"
  unfolding is_double_def by (rule exI[of _ n], rule exI[of _ "- int d"]) (simp add: pow2_def)


lemma round_half_even_le: "q \<le> of_int K \<Longrightarrow> round_half_even q \<le> K"
proof -
  assume "q \<le> of_int K"
  then have "\<lceil>q\<rceil> \<le> K" by (simp add: ceiling_le_iff)
  then show ?thesis using round_half_even_bounds[of q] by linarith
qed

lemma is_double_rnd: "is_double (rnd x)"
proof -
  have pos: "is_double (rnd y)" if "0 < y" for y
  proof -
    define e where "e = ilog2 y"
    define u where "u = pow2 (e - 52)"
    define m where "m = round_half_even (y / u)"
    have u: "0 < u" by (simp add: u_def pow2_pos)
    have "e + 1 = 53 + (e - 52)" by simp
    then have "pow2 (e + 1) = pow2 (53 + (e - 52))" by (rule arg_cong)
    also have "\<dots> = pow2 53 * u" unfolding u_def by (rule pow2_add)
    finally have pe: "pow2 (e + 1) = 2 ^ 53 * u" by (simp add: pow2_def)
    have "y < 2 ^ 53 * u" using ilog2_bounds[OF that] by (simp add: e_def[symmetric] pe)
    then have "y / u \<le> of_int (2 ^ 53)" using u by (simp add: pos_divide_le_eq)
    then have m1: "m \<le> 2 ^ 53" unfolding m_def by (rule round_half_even_le)
    have "0 \<le> y / u" using that u by simp
    then have "0 \<le> \<lfloor>y / u\<rfloor>" by simp
    then have m0: "0 \<le> m" using round_half_even_bounds[of "y / u"] unfolding m_def by linarith
    have "rnd y = of_int m * pow2 (e - 52)"
      using that by (simp add: rnd_def Let_def m_def u_def e_def)
    then show ?thesis unfolding is_double_def using m0 m1 by (intro exI[of _ m] exI[of _ "e - 52"]) simp
  qed
  consider "x = 0" | "0 < x" | "x < 0" by linarith
  then show ?thesis
  proof cases
    case 1
    have "is_double (of_int 0)" by (rule is_double_int) simp
    with 1 show ?thesis by (simp add: rnd_def)
  next
    case 2
    then show ?thesis by (rule pos)
  next
    case 3
    then have "is_double (rnd (- x))" by (intro pos) simp
    then have "is_double (- rnd (- x))" by (rule is_double_minus)
    then show ?thesis by (simp add: rnd_minus)
  qed
qed

lemma is_double_halve: "is_double r \<Longrightarrow> is_double (r / 2 ^ d)"
proof -
  assume "is_double r"
  then obtain k j where r: "r = of_int k * pow2 j" and k: "\<bar>k\<bar> \<le> 2 ^ 53"
    unfolding is_double_def by blast
  have "pow2 (j + (- int d)) = pow2 j * pow2 (- int d)" by (rule pow2_add)
  then have "r / 2 ^ d = of_int k * pow2 (j - int d)" by (simp add: r pow2_def[of "- int d"])
  with k show ?thesis unfolding is_double_def by blast
qed

section \<open>Error propagation\<close>

lemma bind_err_Inr_iff:
  "bind_err r f = Inr v \<longleftrightarrow> (\<exists>u. r = Inr u \<and> f u = Inr v)"
  by (cases r) (simp_all add: bind_err_def)

lemma bind_err_simps [simp]:
  "bind_err (Inr u) f = f u" "bind_err (Inl e) f = Inl e"
  by (simp_all add: bind_err_def)

section \<open>Measurements\<close>

text \<open>The float literals of the script, and bounds on the measurements that hold for every side.\<close>

lemma lit_5_10: "float_lit 5 10 = 1 / 2" by code_simp
lemma lit_5_100: "float_lit 5 100 = 3602879701896397 / 2 ^ 56" by code_simp
lemma lit_8_100: "float_lit 8 100 = 5764607523034235 / 2 ^ 56" by code_simp
lemma lit_4_100: "float_lit 4 100 = 5764607523034235 / 2 ^ 57" by code_simp
lemma lit_6_100: "float_lit 6 100 = 1080863910568919 / 2 ^ 54" by code_simp
lemma lit_12_100: "float_lit 12 100 = 1080863910568919 / 2 ^ 53" by code_simp
lemma lit_25_100: "float_lit 25 100 = 1 / 4" by code_simp
lemma lit_25_1000: "float_lit 25 1000 = 3602879701896397 / 2 ^ 57" by code_simp

lemma py_float_ge: "\<bar>k\<bar> \<le> 2 ^ 53 \<Longrightarrow> k \<le> n \<Longrightarrow> of_int k \<le> py_float n"
  unfolding py_float_def by (rule rnd_ge[OF is_double_int]) simp_all

lemma py_float_le: "\<bar>k\<bar> \<le> 2 ^ 53 \<Longrightarrow> n \<le> k \<Longrightarrow> py_float n \<le> of_int k"
  unfolding py_float_def by (rule rnd_le[OF is_double_int]) simp_all

lemma py_int_ge: "0 \<le> k \<Longrightarrow> of_int k \<le> f \<Longrightarrow> k \<le> py_int f"
  by (simp add: py_int_def le_floor_iff)

lemma scaled_ge:
  assumes k: "0 \<le> k" "k \<le> 2 ^ 53" and n0: "0 \<le> n0" "n0 \<le> 2 ^ 53" and c: "0 \<le> c"
    and low: "of_int k \<le> of_int n0 * c" and n: "n0 \<le> n"
  shows "k \<le> scaled n c"
proof -
  have "of_int n0 \<le> py_float n" using n0 n by (intro py_float_ge) simp_all
  then have "of_int n0 * c \<le> py_float n * c" using c by (rule mult_right_mono)
  with low have "of_int k \<le> py_float n * c" by simp
  moreover have "is_double (of_int k)" using k by (intro is_double_int) simp
  ultimately have "of_int k \<le> rnd (py_float n * c)" by (intro rnd_ge)
  then show ?thesis unfolding scaled_def int_mul_float_def using k(1) by (intro py_int_ge)
qed

lemma scaled_nonneg: "0 \<le> n \<Longrightarrow> 0 \<le> c \<Longrightarrow> 0 \<le> scaled n c"
  using scaled_ge[of 0 0 c n] by simp

lemma tooth_gap_pos: "17 \<le> n \<Longrightarrow> 1 \<le> tooth_gap n"
  unfolding tooth_gap_def by (rule scaled_ge[of 1 17]) (simp_all add: lit_6_100)

lemma zipper_width_ge: "25 \<le> n \<Longrightarrow> 2 \<le> zipper_width n"
  unfolding zipper_width_def by (rule scaled_ge[of 2 25]) (simp_all add: lit_8_100)

lemma tooth_height_nonneg: "0 \<le> n \<Longrightarrow> 0 \<le> tooth_height n"
  unfolding tooth_height_def by (rule scaled_nonneg) (simp_all add: lit_4_100)

lemma pull_size_nonneg: "0 \<le> n \<Longrightarrow> 0 \<le> pull_size n"
  unfolding pull_size_def by (rule scaled_nonneg) (simp_all add: lit_8_100)

lemma gem_size_nonneg: "0 \<le> n \<Longrightarrow> 0 \<le> gem_size n"
  unfolding gem_size_def by (rule scaled_nonneg) (simp_all add: lit_25_1000)

lemma radius_nonneg: "0 \<le> n \<Longrightarrow> 0 \<le> scaled n (float_lit 5 100)"
  by (rule scaled_nonneg) (simp_all add: lit_5_100)

lemma tooth_gap_small: "n \<le> 16 \<Longrightarrow> tooth_gap n \<le> 0"
proof -
  assume n: "n \<le> 16"
  let ?c = "1080863910568919 / 2 ^ 54 :: rat"
  let ?p = "py_float n * ?c"
  have f: "py_float n \<le> of_int 16" using n by (intro py_float_le) simp_all
  have "?p \<le> 16 * ?c" using f by simp
  also have "16 * ?c = of_int 1080863910568919 / 2 ^ 50" by simp
  finally have "?p \<le> of_int 1080863910568919 / 2 ^ 50" .
  moreover have "is_double (of_int 1080863910568919 / 2 ^ 50)" by (rule is_double_frac) simp
  ultimately have "rnd ?p \<le> of_int 1080863910568919 / 2 ^ 50" by (intro rnd_le)
  then have lt: "rnd ?p < 1" by simp
  show ?thesis
  proof (cases "0 \<le> rnd ?p")
    case True
    with lt have "\<lfloor>rnd ?p\<rfloor> = 0" by (simp add: floor_unique)
    with True show ?thesis by (simp add: tooth_gap_def scaled_def int_mul_float_def lit_6_100 py_int_def)
  next
    case False
    then have "\<lceil>rnd ?p\<rceil> \<le> 0" by (simp add: ceiling_le_iff)
    with False show ?thesis by (simp add: tooth_gap_def scaled_def int_mul_float_def lit_6_100 py_int_def)
  qed
qed

lemma radius_le_half_box:
  assumes "0 \<le> n"
  shows "2 * scaled n (float_lit 5 100) \<le> box_size n"
proof -
  let ?f = "py_float n"
  have f0: "0 \<le> ?f" using assms py_float_ge[of 0 n] by simp
  have d: "is_double ?f" unfolding py_float_def by (rule is_double_rnd)
  have "is_double (?f / 2 ^ 1)" using d by (rule is_double_halve)
  then have e: "rnd (?f / 2) = ?f / 2" using rnd_id[of "?f / 2"] by simp
  have bs: "box_size n = \<lfloor>?f / 2\<rfloor>"
    using f0 by (simp add: box_size_def scaled_def int_mul_float_def lit_5_10 py_int_def e)
  have d4: "is_double (?f / 2 ^ 2)" using d by (rule is_double_halve)
  have "?f * (3602879701896397 / 2 ^ 56) \<le> ?f * (1 / 4)" using f0 by (intro mult_left_mono) simp_all
  then have "?f * (3602879701896397 / 2 ^ 56) \<le> ?f / 2 ^ 2" by simp
  with d4 have up: "rnd (?f * (3602879701896397 / 2 ^ 56)) \<le> ?f / 2 ^ 2" by (intro rnd_le)
  have lo: "0 \<le> rnd (?f * (3602879701896397 / 2 ^ 56))" using f0 by (intro rnd_nonneg) simp
  define r where "r = scaled n (float_lit 5 100)"
  have r: "r = \<lfloor>rnd (?f * (3602879701896397 / 2 ^ 56))\<rfloor>"
    using lo by (simp add: r_def scaled_def int_mul_float_def lit_5_100 py_int_def)
  have "of_int r \<le> rnd (?f * (3602879701896397 / 2 ^ 56))" unfolding r by (rule of_int_floor_le)
  with up have "of_int r \<le> ?f / 4" by simp
  then have "of_int (2 * r) \<le> ?f / 2" by simp
  then have "2 * r \<le> \<lfloor>?f / 2\<rfloor>" by (simp only: le_floor_iff)
  then show ?thesis by (simp add: bs r_def)
qed


section \<open>Drawing keeps the canvas\<close>

lemma paint_simps [simp]:
  "width (paint img s c) = width img"
  "height (paint img s c) = height img"
  "pixel (paint img s c) x y = (if on_canvas img x y \<and> s x y then ink c else pixel img x y)"
  "on_canvas (paint img s c) = on_canvas img"
  by (simp_all add: paint_def on_canvas_def fun_eq_iff)


lemma canvas_ok_paint: "canvas_ok n img \<Longrightarrow> solid c \<Longrightarrow> canvas_ok n (paint img s c)"
  by (simp add: canvas_ok_def solid_def)

lemma rectangle_ok:
  assumes "canvas_ok n img" "solid c" "ordered b \<or> \<not> strict pil"
  shows "\<exists>img'. rectangle pil img b c = Inr img' \<and> canvas_ok n img'"
  using assms by (auto simp: rectangle_def fill_box_def canvas_ok_paint)

lemma ellipse_ok:
  assumes "canvas_ok n img" "solid c" "ordered b \<or> \<not> strict pil"
  shows "\<exists>img'. ellipse pil img b c = Inr img' \<and> canvas_ok n img'"
  using assms by (auto simp: ellipse_def canvas_ok_paint)

lemma polygon_ok: "canvas_ok n img \<Longrightarrow> solid c \<Longrightarrow> canvas_ok n (polygon pil img ps c)"
  by (simp add: polygon_def canvas_ok_paint)

lemma draw_rounded_rect_ok:
  assumes ok: "canvas_ok n img" "solid c"
    and r: "0 \<le> r" "2 * r \<le> x2 - x1" "2 * r \<le> y2 - y1"
  shows "\<exists>img'. draw_rounded_rect pil img (x1, y1, x2, y2) r c = Inr img' \<and> canvas_ok n img'"
proof -
  from rectangle_ok[OF ok, of "(x1 + r, y1, x2 - r, y2)" pil] r
  obtain i1 where 1: "rectangle pil img (x1 + r, y1, x2 - r, y2) c = Inr i1" "canvas_ok n i1"
    by (auto simp: ordered_def)
  from rectangle_ok[OF 1(2) ok(2), of "(x1, y1 + r, x2, y2 - r)" pil] r
  obtain i2 where 2: "rectangle pil i1 (x1, y1 + r, x2, y2 - r) c = Inr i2" "canvas_ok n i2"
    by (auto simp: ordered_def)
  from ellipse_ok[OF 2(2) ok(2), of "(x1, y1, x1 + 2 * r, y1 + 2 * r)" pil] r
  obtain i3 where 3: "ellipse pil i2 (x1, y1, x1 + 2 * r, y1 + 2 * r) c = Inr i3" "canvas_ok n i3"
    by (auto simp: ordered_def)
  from ellipse_ok[OF 3(2) ok(2), of "(x2 - 2 * r, y1, x2, y1 + 2 * r)" pil] r
  obtain i4 where 4: "ellipse pil i3 (x2 - 2 * r, y1, x2, y1 + 2 * r) c = Inr i4" "canvas_ok n i4"
    by (auto simp: ordered_def)
  from ellipse_ok[OF 4(2) ok(2), of "(x1, y2 - 2 * r, x1 + 2 * r, y2)" pil] r
  obtain i5 where 5: "ellipse pil i4 (x1, y2 - 2 * r, x1 + 2 * r, y2) c = Inr i5" "canvas_ok n i5"
    by (auto simp: ordered_def)
  from ellipse_ok[OF 5(2) ok(2), of "(x2 - 2 * r, y2 - 2 * r, x2, y2)" pil] r
  obtain i6 where 6: "ellipse pil i5 (x2 - 2 * r, y2 - 2 * r, x2, y2) c = Inr i6" "canvas_ok n i6"
    by (auto simp: ordered_def)
  show ?thesis
    by (simp add: draw_rounded_rect_def 1 2 3 4 5 6)
qed

section \<open>The gradient loops\<close>

text \<open>The two nested loops of \<^verbatim>\<open>create_gradient\<close> set every pixel of the canvas, each to its own colour.\<close>

lemma foldl_paint_size:
  "width (foldl (\<lambda>im x. point im (g x) (f x)) img xs) = width img \<and>
   height (foldl (\<lambda>im x. point im (g x) (f x)) img xs) = height img"
  by (induction xs arbitrary: img) (simp_all add: point_def)

lemma gradient_row_size [simp]:
  "width (gradient_row n c1 c2 img y) = width img"
  "height (gradient_row n c1 c2 img y) = height img"
  unfolding gradient_row_def using foldl_paint_size[of "\<lambda>x. (x, y)"] by simp_all

lemma gradient_row_canvas [simp]: "on_canvas (gradient_row n c1 c2 img y) = on_canvas img"
  by (simp add: on_canvas_def fun_eq_iff)

lemma gradient_row_pixel:
  "pixel (foldl (\<lambda>im x. point im (x, y) (f x)) img xs) x' y' =
     (if y' = y \<and> x' \<in> set xs \<and> on_canvas img x' y' then ink (f x') else pixel img x' y')"
proof (induction xs rule: rev_induct)
  case Nil
  then show ?case by simp
next
  case (snoc x xs)
  have "on_canvas (foldl (\<lambda>im x. point im (x, y) (f x)) img xs) = on_canvas img"
    using foldl_paint_size[of "\<lambda>x. (x, y)" f img xs] by (simp add: on_canvas_def fun_eq_iff)
  with snoc show ?case by (auto simp: point_def)
qed

lemma gradient_row_pixel':
  "pixel (gradient_row n c1 c2 img y) x' y' =
     (if y' = y \<and> x' \<in> set (py_range n) \<and> on_canvas img x' y'
      then ink (gradient_color n c1 c2 x' y) else pixel img x' y')"
  unfolding gradient_row_def by (rule gradient_row_pixel)

lemma gradient_rows_size:
  "width (foldl (gradient_row n c1 c2) img ys) = width img \<and>
   height (foldl (gradient_row n c1 c2) img ys) = height img"
  by (induction ys arbitrary: img) simp_all

lemma gradient_rows_pixel:
  "pixel (foldl (gradient_row n c1 c2) img ys) x' y' =
     (if y' \<in> set ys \<and> x' \<in> set (py_range n) \<and> on_canvas img x' y'
      then ink (gradient_color n c1 c2 x' y') else pixel img x' y')"
proof (induction ys rule: rev_induct)
  case Nil
  then show ?case by simp
next
  case (snoc y ys)
  have "on_canvas (foldl (gradient_row n c1 c2) img ys) = on_canvas img"
    using gradient_rows_size[of n c1 c2 img ys] by (simp add: on_canvas_def fun_eq_iff)
  with snoc show ?case by (auto simp: gradient_row_pixel')
qed

lemma set_py_range: "set (py_range n) = {0..<n}"
proof -
  have "x \<in> int ` {0..<nat n} \<longleftrightarrow> 0 \<le> x \<and> x < n" for x
    by (auto simp: image_iff intro: bexI[of _ "nat x"])
  then show ?thesis by (auto simp: py_range_def)
qed

lemma create_gradient_pixels:
  assumes "0 \<le> n"
  shows "\<exists>img. create_gradient n c1 c2 = Inr img \<and> width img = n \<and> height img = n \<and>
    (\<forall>x y. pixel img x y =
       (if 0 \<le> x \<and> x < n \<and> 0 \<le> y \<and> y < n then ink (gradient_color n c1 c2 x y) else (0, 0, 0, 0)))"
  using assms gradient_rows_size[of n c1 c2 _ "py_range n"]
  by (auto simp: create_gradient_def image_new_def gradient_rows_pixel set_py_range on_canvas_def)

lemma alpha_gradient_color: "alpha (ink (gradient_color n c1 c2 x y)) = 255"
  by (cases c1; cases c2) (simp add: gradient_color_def Let_def ink_def alpha_def clip8_def)

lemma create_gradient_ok:
  assumes "0 \<le> n"
  shows "\<exists>img. create_gradient n c1 c2 = Inr img \<and> canvas_ok n img \<and>
     (\<forall>x y. on_canvas img x y \<longrightarrow> alpha (pixel img x y) = 255)"
proof -
  from create_gradient_pixels[OF assms, of c1 c2] obtain img where
    g: "create_gradient n c1 c2 = Inr img" "width img = n" "height img = n"
    and px: "\<And>x y. pixel img x y =
       (if 0 \<le> x \<and> x < n \<and> 0 \<le> y \<and> y < n then ink (gradient_color n c1 c2 x y) else (0, 0, 0, 0))"
    by blast
  have "alpha (pixel img x y) = 255" if "on_canvas img x y" for x y
    using that g by (simp add: px on_canvas_def alpha_gradient_color)
  then show ?thesis using g by (auto simp: canvas_ok_def)
qed


section \<open>The teeth loop\<close>

lemma teeth_loop_done:
  "\<not> y < zb - th \<Longrightarrow> teeth_loop pil zx zw th gap zb y t img = Some (Inr img)"
  by (subst teeth_loop.simps) simp

lemma teeth_loop_step:
  "y < zb - th \<Longrightarrow> rectangle pil img (tooth_box zx zw th y t) (tooth_fill t) = Inr img' \<Longrightarrow>
     teeth_loop pil zx zw th gap zb y t img = teeth_loop pil zx zw th gap zb (y + gap) (\<not> t) img'"
  by (subst teeth_loop.simps) simp

lemma teeth_loop_raise:
  "y < zb - th \<Longrightarrow> rectangle pil img (tooth_box zx zw th y t) (tooth_fill t) = Inl e \<Longrightarrow>
     teeth_loop pil zx zw th gap zb y t img = Some (Inl e)"
  by (subst teeth_loop.simps) simp

lemma teeth_loop_terminates:
  assumes "1 \<le> gap"
  shows "\<exists>r. teeth_loop pil zx zw th gap zb y t img = Some r"
proof (induction "nat (zb - th - y)" arbitrary: y t img rule: less_induct)
  case less
  show ?case
  proof (cases "y < zb - th")
    case False
    then show ?thesis by (simp add: teeth_loop_done)
  next
    case True
    show ?thesis
    proof (cases "rectangle pil img (tooth_box zx zw th y t) (tooth_fill t)")
      case (Inl e)
      with True show ?thesis by (simp add: teeth_loop_raise)
    next
      case (Inr img')
      have "nat (zb - th - (y + gap)) < nat (zb - th - y)" using True assms by simp
      from less[OF this] show ?thesis by (simp add: teeth_loop_step[OF True Inr])
    qed
  qed
qed

lemma solid_tooth_fill: "solid (tooth_fill t)"
  by (simp add: solid_def tooth_fill_def with_alpha_def color1_def color2_def ink_def alpha_def clip8_def)

lemma ordered_tooth_box: "2 \<le> zw \<Longrightarrow> 0 \<le> th \<Longrightarrow> ordered (tooth_box zx zw th y t)"
  by (simp add: ordered_def tooth_box_def)

lemma teeth_loop_ok:
  assumes "1 \<le> gap" and "(2 \<le> zw \<and> 0 \<le> th) \<or> \<not> strict pil" and "canvas_ok n img"
  shows "\<exists>img'. teeth_loop pil zx zw th gap zb y t img = Some (Inr img') \<and> canvas_ok n img'"
  using assms(3)
proof (induction "nat (zb - th - y)" arbitrary: y t img rule: less_induct)
  case less
  show ?case
  proof (cases "y < zb - th")
    case False
    then show ?thesis using less.prems by (simp add: teeth_loop_done)
  next
    case True
    have "ordered (tooth_box zx zw th y t) \<or> \<not> strict pil"
      using assms(2) ordered_tooth_box by blast
    from rectangle_ok[OF less.prems solid_tooth_fill this]
    obtain img' where r: "rectangle pil img (tooth_box zx zw th y t) (tooth_fill t) = Inr img'"
      and ok: "canvas_ok n img'" by blast
    have "nat (zb - th - (y + gap)) < nat (zb - th - y)" using True assms(1) by simp
    from less.hyps[OF this ok] show ?thesis by (simp add: teeth_loop_step[OF True r])
  qed
qed

section \<open>The renderer returns\<close>

lemma solid_inks:
  "solid (255, 255, 255, 230)" "solid (255, 215, 0, 255)" "solid (255, 100, 100, 255)"
  by (simp_all add: solid_def ink_def alpha_def clip8_def)

lemma draw_emblem_ok:
  assumes "0 \<le> n" "canvas_ok n img"
  shows "\<exists>img'. draw_emblem pil n img = Inr img' \<and> canvas_ok n img'"
proof -
  have "ordered (center n - pull_size n, pull_y n, center n + pull_size n, pull_y n + pull_size n * 2)"
    using pull_size_nonneg[OF assms(1)] by (simp add: ordered_def)
  from ellipse_ok[OF assms(2) solid_inks(2), of _ pil] this
  obtain i1 where 1: "ellipse pil img
      (center n - pull_size n, pull_y n, center n + pull_size n, pull_y n + pull_size n * 2)
      (255, 215, 0, 255) = Inr i1" "canvas_ok n i1" by blast
  have 2: "canvas_ok n (polygon pil i1 (points n) (255, 215, 0, 255))"
    using 1(2) solid_inks(2) by (rule polygon_ok)
  have "ordered (center n - gem_size n, crown_y n + gem_size n,
         center n + gem_size n, crown_y n + gem_size n * 3)"
    using gem_size_nonneg[OF assms(1)] by (simp add: ordered_def)
  from ellipse_ok[OF 2 solid_inks(3), of _ pil] this
  obtain i3 where 3: "ellipse pil (polygon pil i1 (points n) (255, 215, 0, 255))
        (center n - gem_size n, crown_y n + gem_size n,
         center n + gem_size n, crown_y n + gem_size n * 3)
        (255, 100, 100, 255) = Inr i3" "canvas_ok n i3" by blast
  show ?thesis by (simp add: draw_emblem_def 1 3)
qed

lemma create_icon_returns:
  assumes "25 \<le> n \<or> (\<not> strict pil \<and> 17 \<le> n)"
  shows "\<exists>img. create_icon pil n = Some (Inr img) \<and> canvas_ok n img"
proof -
  from assms have n: "0 \<le> n" "17 \<le> n" by auto
  from create_gradient_ok[OF n(1), of color1 color2]
  obtain g where g: "create_gradient n color1 color2 = Inr g" "canvas_ok n g" by blast
  have "2 * scaled n (float_lit 5 100) \<le> box_right n - box_left n"
       "2 * scaled n (float_lit 5 100) \<le> box_bottom n - box_top n"
    using radius_le_half_box[OF n(1)] by (simp_all add: box_right_def box_bottom_def)
  from draw_rounded_rect_ok[OF g(2) solid_inks(1) radius_nonneg[OF n(1)] this, of pil]
  obtain b where b: "draw_rounded_rect pil g (box_left n, box_top n, box_right n, box_bottom n)
       (scaled n (float_lit 5 100)) (255, 255, 255, 230) = Inr b" "canvas_ok n b" by blast
  have "(2 \<le> zipper_width n \<and> 0 \<le> tooth_height n) \<or> \<not> strict pil"
    using assms zipper_width_ge[of n] tooth_height_nonneg[OF n(1)] by blast
  from teeth_loop_ok[OF tooth_gap_pos[OF n(2)] this b(2)]
  obtain t where t: "teeth_loop pil (zipper_x n) (zipper_width n) (tooth_height n) (tooth_gap n)
       (zipper_bottom n) (zipper_top n) True b = Some (Inr t)" "canvas_ok n t" by blast
  from draw_emblem_ok[OF n(1) t(2), of pil]
  obtain e where e: "draw_emblem pil n t = Inr e" "canvas_ok n e" by blast
  show ?thesis by (simp add: create_icon_def g b t e)
qed

lemma create_icon_terminates:
  assumes "1 \<le> tooth_gap n"
  shows "\<exists>r. create_icon pil n = Some r"
proof (cases "bind_err (create_gradient n color1 color2) (\<lambda>img.
             draw_rounded_rect pil img (box_left n, box_top n, box_right n, box_bottom n)
               (scaled n (float_lit 5 100)) (255, 255, 255, 230))")
  case (Inl e)
  then show ?thesis by (simp add: create_icon_def)
next
  case (Inr img)
  from teeth_loop_terminates[OF assms]
  obtain r where "teeth_loop pil (zipper_x n) (zipper_width n) (tooth_height n) (tooth_gap n)
                  (zipper_bottom n) (zipper_top n) True img = Some r" by blast
  then show ?thesis by (cases r) (simp_all add: create_icon_def Inr)
qed

text \<open>
  Claim C10. For every side \<open>n\<close>, \<^verbatim>\<open>int(0.06 * n) >= 1\<close> holds exactly when \<open>n \<ge> 17\<close>.
  Under it the teeth loop returns from every state: a round that draws its tooth moves
  the cursor \<open>y\<close> up by \<open>tooth_gap n \<ge> 1\<close> and hands over to the next round, and the
  distance to \<open>zipper_bottom - tooth_height\<close> is finite. So \<^verbatim>\<open>create_icon\<close> comes back
  (with an image or with the exception of a drawing call), whatever the rasteriser.
\<close>

theorem teeth_loop_total:
  "(1 \<le> tooth_gap n \<longleftrightarrow> 17 \<le> n) \<and>
   (17 \<le> n \<longrightarrow>
      (\<forall>y toggle img. \<exists>r. teeth_loop pil (zipper_x n) (zipper_width n) (tooth_height n)
          (tooth_gap n) (zipper_bottom n) y toggle img = Some r) \<and>
      (\<forall>y toggle img img'. y < zipper_bottom n - tooth_height n \<and>
          rectangle pil img (tooth_box (zipper_x n) (zipper_width n) (tooth_height n) y toggle)
            (tooth_fill toggle) = Inr img' \<longrightarrow>
          teeth_loop pil (zipper_x n) (zipper_width n) (tooth_height n)
            (tooth_gap n) (zipper_bottom n) y toggle img =
          teeth_loop pil (zipper_x n) (zipper_width n) (tooth_height n)
            (tooth_gap n) (zipper_bottom n) (y + tooth_gap n) (\<not> toggle) img'
          \<and> y < y + tooth_gap n) \<and>
      (\<exists>r. create_icon pil n = Some r))"
proof -
  have iff: "1 \<le> tooth_gap n \<longleftrightarrow> 17 \<le> n"
    using tooth_gap_pos[of n] tooth_gap_small[of n] by linarith
  show ?thesis
  proof (intro conjI impI allI)
    show "1 \<le> tooth_gap n \<longleftrightarrow> 17 \<le> n" by (rule iff)
  next
    fix y toggle img
    assume "17 \<le> n"
    then have "1 \<le> tooth_gap n" by (simp add: iff)
    then show "\<exists>r. teeth_loop pil (zipper_x n) (zipper_width n) (tooth_height n)
          (tooth_gap n) (zipper_bottom n) y toggle img = Some r"
      by (rule teeth_loop_terminates)
  next
    fix y toggle img img'
    assume "17 \<le> n" and "y < zipper_bottom n - tooth_height n \<and>
          rectangle pil img (tooth_box (zipper_x n) (zipper_width n) (tooth_height n) y toggle)
            (tooth_fill toggle) = Inr img'"
    then show "teeth_loop pil (zipper_x n) (zipper_width n) (tooth_height n)
            (tooth_gap n) (zipper_bottom n) y toggle img =
          teeth_loop pil (zipper_x n) (zipper_width n) (tooth_height n)
            (tooth_gap n) (zipper_bottom n) (y + tooth_gap n) (\<not> toggle) img'"
      by (simp add: teeth_loop_step)
  next
    fix y :: int
    assume "17 \<le> n"
    then have "1 \<le> tooth_gap n" by (simp add: iff)
    then show "y < y + tooth_gap n" by simp
  next
    assume "17 \<le> n"
    then have "1 \<le> tooth_gap n" by (simp add: iff)
    then show "\<exists>r. create_icon pil n = Some r" by (rule create_icon_terminates)
  qed
qed

theorem teeth_loop_total_witness:
  "(17::int) \<le> 17 \<and> 1 \<le> tooth_gap 17 \<and> (\<exists>r. create_icon coarse_pillow 17 = Some r)"
  using teeth_loop_total[of 17 coarse_pillow] by simp

section \<open>The teeth loop paints the list of teeth\<close>

lemma tooth_count_0: "1 \<le> gap \<Longrightarrow> \<not> y < zb - th \<Longrightarrow> tooth_count gap y zb th = 0"
proof -
  assume g: "1 \<le> gap" and "\<not> y < zb - th"
  then have "zb - th - y + gap - 1 < gap" by simp
  then have "zb - th - y + gap - 1 \<le> gap - 1" by simp
  then have "(zb - th - y + gap - 1) div gap \<le> (gap - 1) div gap"
    using g by (intro zdiv_mono1) simp_all
  also have "(gap - 1) div gap = 0" using g by (intro div_pos_pos_trivial) simp_all
  finally show ?thesis by (simp add: tooth_count_def)
qed

lemma tooth_count_Suc:
  assumes g: "1 \<le> gap" and lt: "y < zb - th"
  shows "tooth_count gap y zb th = Suc (tooth_count gap (y + gap) zb th)"
proof -
  let ?a = "zb - th - (y + gap) + gap - 1"
  have a0: "0 \<le> ?a" using lt by simp
  then have d0: "0 \<le> ?a div gap" using g by (simp add: pos_imp_zdiv_nonneg_iff)
  have e: "zb - th - y + gap - 1 = ?a + gap" by simp
  have "gap \<noteq> 0" using g by simp
  then have "(?a + gap) div gap = ?a div gap + 1" by (rule div_add_self2)
  then have "(zb - th - y + gap - 1) div gap = ?a div gap + 1" by (simp only: e)
  then have "nat ((zb - th - y + gap - 1) div gap) = Suc (nat (?a div gap))"
    using d0 by (simp add: nat_add_distrib)
  then show ?thesis by (simp only: tooth_count_def)
qed

lemma teeth_Suc:
  "teeth zx zw th gap y t (Suc m) =
     (tooth_box zx zw th y t, tooth_fill t) # teeth zx zw th gap (y + gap) (\<not> t) m"
proof -
  have u: "[0..<Suc m] = 0 # map Suc [0..<m]" by (simp add: upt_conv_Cons map_Suc_upt del: upt_Suc)
  have p: "(t = even (Suc k)) = ((\<not> t) = even k)" for k by auto
  have q: "y + int (Suc k) * gap = y + gap + int k * gap" for k by (simp add: algebra_simps)
  show ?thesis unfolding teeth_def u by (simp add: p q del: upt_Suc even_Suc of_nat_Suc)
qed

lemma teeth_loop_paints:
  assumes "1 \<le> gap" "2 \<le> zw" "0 \<le> th"
  shows "teeth_loop pil zx zw th gap zb y t img =
     Some (Inr (fill_boxes img (teeth zx zw th gap y t (tooth_count gap y zb th))))"
proof (induction "nat (zb - th - y)" arbitrary: y t img rule: less_induct)
  case less
  show ?case
  proof (cases "y < zb - th")
    case False
    then show ?thesis
      by (simp add: teeth_loop_done tooth_count_0[OF assms(1)] teeth_def fill_boxes_def)
  next
    case True
    have r: "rectangle pil img (tooth_box zx zw th y t) (tooth_fill t)
        = Inr (fill_box img (tooth_box zx zw th y t) (tooth_fill t))"
      using ordered_tooth_box[OF assms(2,3)] by (simp add: rectangle_def)
    have "nat (zb - th - (y + gap)) < nat (zb - th - y)" using True assms(1) by simp
    from less[OF this] show ?thesis
      by (simp add: teeth_loop_step[OF True r] tooth_count_Suc[OF assms(1) True] teeth_Suc fill_boxes_def)
  qed
qed

section \<open>Pixels a drawing call leaves alone\<close>

lemma fill_boxes_size [simp]:
  "width (fill_boxes img bs) = width img" "height (fill_boxes img bs) = height img"
  unfolding fill_boxes_def by (induction bs arbitrary: img) (auto simp: fill_box_def)

lemma fill_boxes_frame:
  "(\<And>b c. (b, c) \<in> set bs \<Longrightarrow> \<not> in_box b x y) \<Longrightarrow> pixel (fill_boxes img bs) x y = pixel img x y"
proof (induction bs arbitrary: img)
  case Nil
  then show ?case by (simp add: fill_boxes_def)
next
  case (Cons p bs)
  obtain b c where p: "p = (b, c)" by (cases p)
  have "\<not> in_box b x y" using Cons.prems[of b c] by (simp add: p)
  then have 1: "pixel (fill_box img b c) x y = pixel img x y" by (simp add: fill_box_def)
  have "pixel (fill_boxes (fill_box img b c) bs) x y = pixel (fill_box img b c) x y"
  proof (rule Cons.IH)
    fix b' c'
    assume "(b', c') \<in> set bs"
    then show "\<not> in_box b' x y" using Cons.prems[of b' c'] by simp
  qed
  then show ?case by (simp add: fill_boxes_def p 1)
qed

lemma teeth_frame:
  assumes "2 \<le> zw" and "x < zx - zw \<or> zx + zw < x"
  shows "pixel (fill_boxes img (teeth zx zw th gap y0 t m)) x y = pixel img x y"
proof (rule fill_boxes_frame)
  fix b c
  assume "(b, c) \<in> set (teeth zx zw th gap y0 t m)"
  then obtain k where "b = tooth_box zx zw th (y0 + int k * gap) (t = even k)"
    by (auto simp: teeth_def)
  then show "\<not> in_box b x y" using assms by (auto simp: tooth_box_def in_box_def)
qed

lemma rectangle_size:
  "rectangle pil img b c = Inr img' \<Longrightarrow> width img' = width img \<and> height img' = height img"
  by (auto simp: rectangle_def fill_box_def split: if_splits)

lemma rectangle_pixel_in:
  "rectangle pil img b c = Inr img' \<Longrightarrow> ordered b \<Longrightarrow> in_box b x y \<Longrightarrow> on_canvas img x y \<Longrightarrow>
     pixel img' x y = ink c"
  by (auto simp: rectangle_def fill_box_def)

lemma ellipse_pixel_keep:
  "ellipse pil img b c = Inr img' \<Longrightarrow> pixel img x y = ink c \<Longrightarrow> pixel img' x y = ink c"
  by (auto simp: ellipse_def split: if_splits)

lemma draw_rounded_rect_pixel:
  assumes d: "draw_rounded_rect pil img (x1, y1, x2, y2) r c = Inr img'"
    and on: "on_canvas img x y" and xy: "x1 \<le> x" "x \<le> x2" "y1 + r \<le> y" "y \<le> y2 - r"
  shows "pixel img' x y = ink c"
proof -
  from d obtain i1 i2 i3 i4 i5 where
    1: "rectangle pil img (x1 + r, y1, x2 - r, y2) c = Inr i1" and
    2: "rectangle pil i1 (x1, y1 + r, x2, y2 - r) c = Inr i2" and
    3: "ellipse pil i2 (x1, y1, x1 + 2 * r, y1 + 2 * r) c = Inr i3" and
    4: "ellipse pil i3 (x2 - 2 * r, y1, x2, y1 + 2 * r) c = Inr i4" and
    5: "ellipse pil i4 (x1, y2 - 2 * r, x1 + 2 * r, y2) c = Inr i5" and
    6: "ellipse pil i5 (x2 - 2 * r, y2 - 2 * r, x2, y2) c = Inr img'"
    unfolding draw_rounded_rect_def prod.case bind_err_Inr_iff by blast
  have "on_canvas i1 x y" using rectangle_size[OF 1] on by (simp add: on_canvas_def)
  moreover have "ordered (x1, y1 + r, x2, y2 - r)" "in_box (x1, y1 + r, x2, y2 - r) x y"
    using xy by (simp_all add: ordered_def in_box_def)
  ultimately have "pixel i2 x y = ink c" by (intro rectangle_pixel_in[OF 2])
  then have "pixel i3 x y = ink c" by (rule ellipse_pixel_keep[OF 3])
  then have "pixel i4 x y = ink c" by (rule ellipse_pixel_keep[OF 4])
  then have "pixel i5 x y = ink c" by (rule ellipse_pixel_keep[OF 5])
  then show ?thesis by (rule ellipse_pixel_keep[OF 6])
qed

section \<open>The master canvas, side 1024\<close>

lemma py_float_id: "\<bar>n\<bar> \<le> 2 ^ 53 \<Longrightarrow> py_float n = of_int n"
  unfolding py_float_def by (rule rnd_id[OF is_double_int])

lemma scaled_1024:
  "scaled 1024 (float_lit 5 10) = 512" "scaled 1024 (float_lit 5 100) = 51"
  "scaled 1024 (float_lit 8 100) = 81" "scaled 1024 (float_lit 4 100) = 40"
  "scaled 1024 (float_lit 6 100) = 61" "scaled 1024 (float_lit 12 100) = 122"
  "scaled 1024 (float_lit 25 100) = 256" "scaled 1024 (float_lit 25 1000) = 25"
  unfolding scaled_def int_mul_float_def py_float_id[of 1024, simplified]
    lit_5_10 lit_5_100 lit_8_100 lit_4_100 lit_6_100 lit_12_100 lit_25_100 lit_25_1000
  by code_simp+

lemma geometry_1024:
  "center 1024 = 512" "box_left 1024 = 256" "box_top 1024 = 307" "box_right 1024 = 768"
  "box_bottom 1024 = 819" "zipper_x 1024 = 512"
  "zipper_width 1024 = 81" "tooth_height 1024 = 40" "tooth_gap 1024 = 61"
  "zipper_top 1024 = 388" "zipper_bottom 1024 = 738" "pull_size 1024 = 81" "pull_y 1024 = 307"
  "crown_y 1024 = 122" "gem_size 1024 = 25"
  "points 1024 = [(256, 244), (256, 183), (384, 244), (512, 122), (640, 244), (768, 183), (768, 244)]"
  by (simp_all add: center_def box_size_def box_left_def box_top_def box_right_def box_bottom_def
      zipper_x_def zipper_width_def tooth_height_def tooth_gap_def zipper_top_def
      zipper_bottom_def pull_size_def pull_y_def crown_y_def crown_height_def crown_width_def
      crown_left_def crown_right_def gem_size_def points_def scaled_1024)

lemma create_icon_1024_pixel:
  "\<exists>img. create_icon pil 1024 = Some (Inr img) \<and> pixel img 300 600 = (255, 255, 255, 230)"
proof -
  from create_gradient_ok[of 1024 color1 color2]
  obtain g where g: "create_gradient 1024 color1 color2 = Inr g" "canvas_ok 1024 g" by auto
  from draw_rounded_rect_ok[OF g(2) solid_inks(1), of 51 768 256 819 307 pil]
  obtain b where b: "draw_rounded_rect pil g (256, 307, 768, 819) 51 (255, 255, 255, 230) = Inr b"
    "canvas_ok 1024 b" by auto
  have "on_canvas g 300 600" using g(2) by (simp add: canvas_ok_def on_canvas_def)
  from draw_rounded_rect_pixel[OF b(1) this, of ]
  have pb: "pixel b 300 600 = (255, 255, 255, 230)" by (simp add: ink_def clip8_def)
  define t where "t = fill_boxes b (teeth 512 81 40 61 388 True (tooth_count 61 388 738 40))"
  have tl: "teeth_loop pil 512 81 40 61 738 388 True b = Some (Inr t)"
    unfolding t_def by (rule teeth_loop_paints) simp_all
  have pt: "pixel t 300 600 = (255, 255, 255, 230)"
    unfolding t_def by (simp add: teeth_frame pb)
  have "\<exists>e. draw_emblem pil 1024 t = Inr e \<and> pixel e 300 600 = (255, 255, 255, 230)"
    by (simp add: draw_emblem_def geometry_1024 scaled_1024 ellipse_def ordered_def polygon_def
        bounding_box_def in_box_def pt)
  then obtain e where e: "draw_emblem pil 1024 t = Inr e" "pixel e 300 600 = (255, 255, 255, 230)"
    by blast
  show ?thesis by (simp add: create_icon_def geometry_1024 scaled_1024 g b tl e)
qed

lemma scaled_2:
  "scaled 2 (float_lit 5 10) = 1" "scaled 2 (float_lit 5 100) = 0"
  "scaled 2 (float_lit 8 100) = 0" "scaled 2 (float_lit 4 100) = 0"
  "scaled 2 (float_lit 6 100) = 0"
  unfolding scaled_def int_mul_float_def py_float_id[of 2, simplified]
    lit_5_10 lit_5_100 lit_8_100 lit_4_100 lit_6_100
  by code_simp+

lemma geometry_2:
  "center 2 = 1" "box_left 2 = 1" "box_top 2 = 1" "box_right 2 = 2"
  "box_bottom 2 = 2" "zipper_x 2 = 1"
  "zipper_width 2 = 0" "tooth_height 2 = 0" "tooth_gap 2 = 0"
  "zipper_top 2 = 1" "zipper_bottom 2 = 2"
  by (simp_all add: center_def box_size_def box_left_def box_top_def box_right_def box_bottom_def
      zipper_x_def zipper_width_def tooth_height_def tooth_gap_def zipper_top_def
      zipper_bottom_def scaled_2)

lemma create_icon_2_strict: "strict pil \<Longrightarrow> create_icon pil 2 = Some (Inl ValueError)"
proof -
  assume s: "strict pil"
  from create_gradient_ok[of 2 color1 color2]
  obtain g where g: "create_gradient 2 color1 color2 = Inr g" "canvas_ok 2 g" by auto
  from draw_rounded_rect_ok[OF g(2) solid_inks(1), of 0 2 1 2 1 pil]
  obtain b where b: "draw_rounded_rect pil g (1, 1, 2, 2) 0 (255, 255, 255, 230) = Inr b" by auto
  have "rectangle pil b (tooth_box 1 0 0 1 True) (tooth_fill True) = Inl ValueError"
    using s by (simp add: rectangle_def tooth_box_def ordered_def)
  then have "teeth_loop pil 1 0 0 0 2 1 True b = Some (Inl ValueError)"
    by (intro teeth_loop_raise) simp_all
  then show ?thesis by (simp add: create_icon_def geometry_2 scaled_2 g b)
qed

text \<open>
  With a gap of 0 and a Pillow that draws unordered boxes, a loop that starts never
  returns: every round leaves \<open>y\<close> where it was.
\<close>

lemma teeth_loop_never_returns:
  assumes "teeth_loop pil zx zw th gap zb y t img = Some r"
  shows "\<not> (gap = 0 \<and> \<not> strict pil \<and> y < zb - th)"
proof (rule teeth_loop.raw_induct[where P = "\<lambda>pil zx zw th gap zb y t img r.
    \<not> (gap = 0 \<and> \<not> strict pil \<and> y < zb - th)", OF _ assms])
  fix loop pil zx zw th gap zb y t img r
  assume ih: "\<And>pil zx zw th gap zb y t img r. loop pil zx zw th gap zb y t img = Some r \<Longrightarrow>
      \<not> (gap = 0 \<and> \<not> strict pil \<and> y < zb - th)"
    and body: "(if y < zb - th
      then case rectangle pil img (tooth_box zx zw th y t) (tooth_fill t) of
           Inl e \<Rightarrow> Some (Inl e)
           | Inr img' \<Rightarrow> loop pil zx zw th gap zb (y + gap) (\<not> t) img'
      else Some (Inr img)) = Some r"
  show "\<not> (gap = 0 \<and> \<not> strict pil \<and> y < zb - th)"
  proof
    assume a: "gap = 0 \<and> \<not> strict pil \<and> y < zb - th"
    then have "\<exists>img'. rectangle pil img (tooth_box zx zw th y t) (tooth_fill t) = Inr img'"
      by (simp add: rectangle_def)
    then obtain img' where "rectangle pil img (tooth_box zx zw th y t) (tooth_fill t) = Inr img'"
      by blast
    with body a have "loop pil zx zw th gap zb y (\<not> t) img' = Some r" by simp
    from ih[OF this] a show False by simp
  qed
qed

lemma teeth_loop_diverges:
  "gap = 0 \<Longrightarrow> \<not> strict pil \<Longrightarrow> y < zb - th \<Longrightarrow> teeth_loop pil zx zw th gap zb y t img = None"
  using teeth_loop_never_returns[of pil zx zw th gap zb y t img] by (cases "teeth_loop pil zx zw th gap zb y t img") auto

lemma create_icon_2_lenient: "\<not> strict pil \<Longrightarrow> create_icon pil 2 = None"
proof -
  assume s: "\<not> strict pil"
  from create_gradient_ok[of 2 color1 color2]
  obtain g where g: "create_gradient 2 color1 color2 = Inr g" "canvas_ok 2 g" by auto
  from draw_rounded_rect_ok[OF g(2) solid_inks(1), of 0 2 1 2 1 pil]
  obtain b where b: "draw_rounded_rect pil g (1, 1, 2, 2) 0 (255, 255, 255, 230) = Inr b" by auto
  have "teeth_loop pil 1 0 0 0 2 1 True b = None"
    using s by (intro teeth_loop_diverges) simp_all
  then show ?thesis by (simp add: create_icon_def geometry_2 scaled_2 g b)
qed

section \<open>The alpha channel of the icon\<close>

text \<open>
  Every drawing call stores the alpha of its fill, so the alpha of a pixel of the icon
  is that of the last shape covering it: 230 from the rounded box, 255 from the
  gradient, the teeth and the emblem.
\<close>

lemma zipper_width_small: "n \<le> 24 \<Longrightarrow> zipper_width n \<le> 1"
proof -
  assume n: "n \<le> 24"
  let ?c = "5764607523034235 / 2 ^ 56 :: rat"
  let ?p = "py_float n * ?c"
  have f: "py_float n \<le> of_int 24" using n by (intro py_float_le) simp_all
  have "?p \<le> 24 * ?c" using f by simp
  also have "24 * ?c \<le> of_int 31 / 2 ^ 4" by simp
  finally have "?p \<le> of_int 31 / 2 ^ 4" .
  moreover have "is_double (of_int 31 / 2 ^ 4)" by (rule is_double_frac) simp
  ultimately have "rnd ?p \<le> of_int 31 / 2 ^ 4" by (intro rnd_le)
  then have lt: "rnd ?p < 2" by simp
  show ?thesis
  proof (cases "0 \<le> rnd ?p")
    case True
    from lt have "\<lfloor>rnd ?p\<rfloor> < 2" by (simp add: floor_less_iff)
    with True show ?thesis
      by (simp add: zipper_width_def scaled_def int_mul_float_def lit_8_100 py_int_def)
  next
    case False
    then have "\<lceil>rnd ?p\<rceil> \<le> 0" by (simp add: ceiling_le_iff)
    with False show ?thesis
      by (simp add: zipper_width_def scaled_def int_mul_float_def lit_8_100 py_int_def)
  qed
qed

lemma tooth_gap_nonneg: "0 \<le> n \<Longrightarrow> 0 \<le> tooth_gap n"
  unfolding tooth_gap_def by (rule scaled_nonneg) (simp_all add: lit_6_100)

lemma wide_teeth_have_gap: "2 \<le> zipper_width n \<Longrightarrow> 1 \<le> tooth_gap n"
  using zipper_width_small[of n] tooth_gap_pos[of n] by linarith

lemma rectangle_Inr:
  "rectangle pil img b c = Inr img' \<Longrightarrow>
     (ordered b \<or> \<not> strict pil) \<and> img' = fill_box img (drawn_box b) c"
  by (auto simp: rectangle_def drawn_box_def split: if_splits)

lemma rectangle_drawn:
  "ordered b \<or> \<not> strict pil \<Longrightarrow> rectangle pil img b c = Inr (fill_box img (drawn_box b) c)"
  by (auto simp: rectangle_def drawn_box_def)

lemma ellipse_ordered:
  "ordered b \<Longrightarrow> ellipse pil img b c = Inr (paint img (in_ellipse pil b) c)"
  by (simp add: ellipse_def in_ellipse_def[abs_def])

lemma ordered_tooth_box_iff: "ordered (tooth_box zx zw th y t) \<longleftrightarrow> 2 \<le> zw \<and> 0 \<le> th"
  by (auto simp: ordered_def tooth_box_def)

lemma teeth_loop_paints_drawn:
  assumes "1 \<le> gap" "(2 \<le> zw \<and> 0 \<le> th) \<or> \<not> strict pil"
  shows "teeth_loop pil zx zw th gap zb y t img =
     Some (Inr (fill_boxes img (drawn_teeth (teeth zx zw th gap y t (tooth_count gap y zb th)))))"
proof (induction "nat (zb - th - y)" arbitrary: y t img rule: less_induct)
  case less
  show ?case
  proof (cases "y < zb - th")
    case False
    then show ?thesis
      by (simp add: teeth_loop_done tooth_count_0[OF assms(1)] teeth_def fill_boxes_def drawn_teeth_def)
  next
    case True
    have "ordered (tooth_box zx zw th y t) \<or> \<not> strict pil"
      using assms(2) by (simp add: ordered_tooth_box_iff)
    then have r: "rectangle pil img (tooth_box zx zw th y t) (tooth_fill t)
        = Inr (fill_box img (drawn_box (tooth_box zx zw th y t)) (tooth_fill t))"
      by (rule rectangle_drawn)
    have "nat (zb - th - (y + gap)) < nat (zb - th - y)" using True assms(1) by simp
    from less[OF this] show ?thesis
      by (simp add: teeth_loop_step[OF True r] tooth_count_Suc[OF assms(1) True] teeth_Suc
          fill_boxes_def drawn_teeth_def)
  qed
qed

lemma teeth_loop_any_never_returns:
  "gap = 0 \<Longrightarrow> \<not> strict pil \<Longrightarrow> y < zb - th \<Longrightarrow> teeth_loop pil zx zw th gap zb y t img \<noteq> Some r"
  using teeth_loop_diverges[of gap pil y zb th zx zw t img] by simp

lemma tooth_count_not_entered: "0 \<le> gap \<Longrightarrow> \<not> y < zb - th \<Longrightarrow> tooth_count gap y zb th = 0"
proof (cases "gap = 0")
  case True
  then show ?thesis by (simp add: tooth_count_def)
next
  case False
  assume "0 \<le> gap" "\<not> y < zb - th"
  with False show ?thesis by (intro tooth_count_0) simp_all
qed

lemma teeth_loop_Inr:
  assumes r: "teeth_loop pil zx zw th gap zb y t img = Some (Inr img')"
    and g: "0 \<le> gap" "2 \<le> zw \<longrightarrow> 1 \<le> gap"
  shows "img' = fill_boxes img (drawn_teeth (teeth zx zw th gap y t (tooth_count gap y zb th)))"
proof (cases "y < zb - th")
  case False
  with r have "img' = img" by (simp add: teeth_loop_done)
  then show ?thesis
    using tooth_count_not_entered[OF g(1) False]
    by (simp add: teeth_def fill_boxes_def drawn_teeth_def)
next
  case True
  have ok: "ordered (tooth_box zx zw th y t) \<or> \<not> strict pil"
  proof (cases "rectangle pil img (tooth_box zx zw th y t) (tooth_fill t)")
    case (Inl e)
    from teeth_loop_raise[OF True Inl] r show ?thesis by simp
  next
    case (Inr i)
    from rectangle_Inr[OF Inr] show ?thesis by blast
  qed
  have gap: "1 \<le> gap"
  proof (cases "strict pil")
    case True
    with ok g(2) show ?thesis by (simp add: ordered_tooth_box_iff)
  next
    case False
    from teeth_loop_any_never_returns[OF _ False True, of gap zx zw t img "Inr img'"] r
    have "gap \<noteq> 0" by blast
    with g(1) show ?thesis by simp
  qed
  have "(2 \<le> zw \<and> 0 \<le> th) \<or> \<not> strict pil" using ok by (simp add: ordered_tooth_box_iff)
  from teeth_loop_paints_drawn[OF gap this, of zx zb y t img] r show ?thesis by simp
qed

lemma fill_box_canvas: "on_canvas (fill_box img b c) = on_canvas img"
  by (simp add: fill_box_def)

lemma alpha_fill_boxes:
  assumes "\<forall>(b, c) \<in> set bs. alpha (ink c) = 255" and "on_canvas img x y"
  shows "alpha (pixel (fill_boxes img bs) x y) =
     (if list_ex (\<lambda>(b, c). in_box b x y) bs then 255 else alpha (pixel img x y))"
  using assms
proof (induction bs arbitrary: img)
  case Nil
  then show ?case by (simp add: fill_boxes_def)
next
  case (Cons p bs)
  obtain b c where p: "p = (b, c)" by (cases p)
  from Cons.prems(1) have c: "alpha (ink c) = 255" and rest: "\<forall>(b, c) \<in> set bs. alpha (ink c) = 255"
    by (simp_all add: p)
  have on: "on_canvas (fill_box img b c) x y" using Cons.prems(2) by (simp add: fill_box_canvas)
  have "fill_boxes img (p # bs) = fill_boxes (fill_box img b c) bs"
    by (simp add: fill_boxes_def p)
  then have "alpha (pixel (fill_boxes img (p # bs)) x y) =
      (if list_ex (\<lambda>(b, c). in_box b x y) bs then 255 else alpha (pixel (fill_box img b c) x y))"
    using Cons.IH[OF rest on] by simp
  also have "alpha (pixel (fill_box img b c) x y) = (if in_box b x y then 255 else alpha (pixel img x y))"
    using Cons.prems(2) c by (simp add: fill_box_def)
  finally show ?case by (simp add: p)
qed

lemma alpha_teeth:
  assumes "on_canvas img x y"
  shows "alpha (pixel (fill_boxes img (drawn_teeth (teeth zx zw th gap y0 t m))) x y) =
     (if list_ex (\<lambda>(b, c). in_box (drawn_box b) x y) (teeth zx zw th gap y0 t m) then 255
      else alpha (pixel img x y))"
proof -
  have "\<forall>(b, c) \<in> set (drawn_teeth (teeth zx zw th gap y0 t m)). alpha (ink c) = 255"
    by (auto simp: drawn_teeth_def teeth_def tooth_fill_def with_alpha_def color1_def color2_def
        ink_def alpha_def clip8_def)
  from alpha_fill_boxes[OF this assms] show ?thesis
    by (simp add: drawn_teeth_def list_ex_iff case_prod_beta)
qed

lemma draw_rounded_rect_pixels:
  assumes d: "draw_rounded_rect pil img (x1, y1, x2, y2) r c = Inr img'"
    and r: "0 \<le> r" "2 * r \<le> x2 - x1" "2 * r \<le> y2 - y1"
  shows "width img' = width img" "height img' = height img"
    and "pixel img' x y =
      (if on_canvas img x y \<and>
          (in_box (x1 + r, y1, x2 - r, y2) x y \<or> in_box (x1, y1 + r, x2, y2 - r) x y \<or>
           in_ellipse pil (x1, y1, x1 + 2 * r, y1 + 2 * r) x y \<or>
           in_ellipse pil (x2 - 2 * r, y1, x2, y1 + 2 * r) x y \<or>
           in_ellipse pil (x1, y2 - 2 * r, x1 + 2 * r, y2) x y \<or>
           in_ellipse pil (x2 - 2 * r, y2 - 2 * r, x2, y2) x y)
       then ink c else pixel img x y)"
proof -
  have o: "ordered (x1 + r, y1, x2 - r, y2)" "ordered (x1, y1 + r, x2, y2 - r)"
    "ordered (x1, y1, x1 + 2 * r, y1 + 2 * r)" "ordered (x2 - 2 * r, y1, x2, y1 + 2 * r)"
    "ordered (x1, y2 - 2 * r, x1 + 2 * r, y2)" "ordered (x2 - 2 * r, y2 - 2 * r, x2, y2)"
    using r by (simp_all add: ordered_def)
  define i1 where "i1 = fill_box img (x1 + r, y1, x2 - r, y2) c"
  define i2 where "i2 = fill_box i1 (x1, y1 + r, x2, y2 - r) c"
  define i3 where "i3 = paint i2 (in_ellipse pil (x1, y1, x1 + 2 * r, y1 + 2 * r)) c"
  define i4 where "i4 = paint i3 (in_ellipse pil (x2 - 2 * r, y1, x2, y1 + 2 * r)) c"
  define i5 where "i5 = paint i4 (in_ellipse pil (x1, y2 - 2 * r, x1 + 2 * r, y2)) c"
  define i6 where "i6 = paint i5 (in_ellipse pil (x2 - 2 * r, y2 - 2 * r, x2, y2)) c"
  have "draw_rounded_rect pil img (x1, y1, x2, y2) r c = Inr i6"
    unfolding draw_rounded_rect_def prod.case
    by (simp add: rectangle_def o ellipse_ordered i1_def i2_def i3_def i4_def i5_def i6_def)
  with d have e: "img' = i6" by simp
  have c: "on_canvas i1 = on_canvas img" "on_canvas i2 = on_canvas img" "on_canvas i3 = on_canvas img"
    "on_canvas i4 = on_canvas img" "on_canvas i5 = on_canvas img"
    by (simp_all add: i1_def i2_def i3_def i4_def i5_def fill_box_canvas)
  show "width img' = width img" "height img' = height img"
    by (simp_all add: e i1_def i2_def i3_def i4_def i5_def i6_def fill_box_def)
  have p1: "pixel i1 x y = (if on_canvas img x y \<and> in_box (x1 + r, y1, x2 - r, y2) x y then ink c else pixel img x y)"
    by (simp add: i1_def fill_box_def)
  have p2: "pixel i2 x y = (if on_canvas img x y \<and> in_box (x1, y1 + r, x2, y2 - r) x y then ink c else pixel i1 x y)"
    by (simp add: i2_def fill_box_def c)
  have p3: "pixel i3 x y = (if on_canvas img x y \<and> in_ellipse pil (x1, y1, x1 + 2 * r, y1 + 2 * r) x y then ink c else pixel i2 x y)"
    by (simp add: i3_def c)
  have p4: "pixel i4 x y = (if on_canvas img x y \<and> in_ellipse pil (x2 - 2 * r, y1, x2, y1 + 2 * r) x y then ink c else pixel i3 x y)"
    by (simp add: i4_def c)
  have p5: "pixel i5 x y = (if on_canvas img x y \<and> in_ellipse pil (x1, y2 - 2 * r, x1 + 2 * r, y2) x y then ink c else pixel i4 x y)"
    by (simp add: i5_def c)
  have p6: "pixel i6 x y = (if on_canvas img x y \<and> in_ellipse pil (x2 - 2 * r, y2 - 2 * r, x2, y2) x y then ink c else pixel i5 x y)"
    by (simp add: i6_def c)
  show "pixel img' x y =
      (if on_canvas img x y \<and>
          (in_box (x1 + r, y1, x2 - r, y2) x y \<or> in_box (x1, y1 + r, x2, y2 - r) x y \<or>
           in_ellipse pil (x1, y1, x1 + 2 * r, y1 + 2 * r) x y \<or>
           in_ellipse pil (x2 - 2 * r, y1, x2, y1 + 2 * r) x y \<or>
           in_ellipse pil (x1, y2 - 2 * r, x1 + 2 * r, y2) x y \<or>
           in_ellipse pil (x2 - 2 * r, y2 - 2 * r, x2, y2) x y)
       then ink c else pixel img x y)"
    unfolding e p6 p5 p4 p3 p2 p1 by auto
qed

lemma draw_emblem_alpha:
  assumes n: "0 \<le> n" and d: "draw_emblem pil n img = Inr img'" and on: "on_canvas img x y"
  shows "alpha (pixel img' x y) = (if emblem_covers pil n x y then 255 else alpha (pixel img x y))"
    and "width img' = width img" "height img' = height img"
proof -
  let ?pull = "(center n - pull_size n, pull_y n, center n + pull_size n, pull_y n + pull_size n * 2)"
  let ?gem = "(center n - gem_size n, crown_y n + gem_size n,
         center n + gem_size n, crown_y n + gem_size n * 3)"
  have o: "ordered ?pull" "ordered ?gem"
    using pull_size_nonneg[OF n] gem_size_nonneg[OF n] by (simp_all add: ordered_def)
  define i1 where "i1 = paint img (in_ellipse pil ?pull) (255, 215, 0, 255)"
  define i2 where "i2 = polygon pil i1 (points n) (255, 215, 0, 255)"
  define i3 where "i3 = paint i2 (in_ellipse pil ?gem) (255, 100, 100, 255)"
  have "draw_emblem pil n img = Inr i3"
    by (simp add: draw_emblem_def ellipse_ordered o i1_def i2_def i3_def)
  with d have e: "img' = i3" by simp
  have a: "alpha (ink (255, 215, 0, 255)) = 255" "alpha (ink (255, 100, 100, 255)) = 255"
    by (simp_all add: ink_def alpha_def clip8_def)
  show "width img' = width img" "height img' = height img"
    by (simp_all add: e i1_def i2_def i3_def polygon_def)
  show "alpha (pixel img' x y) = (if emblem_covers pil n x y then 255 else alpha (pixel img x y))"
    using on by (simp add: e i3_def i2_def i1_def polygon_def a emblem_covers_def)
qed

lemma box_covers_inside:
  assumes "0 \<le> n" "box_covers pil n x y"
  shows "box_left n \<le> x \<and> x \<le> box_right n \<and> box_top n \<le> y \<and> y \<le> box_bottom n"
proof -
  have r: "0 \<le> scaled n (float_lit 5 100)" using assms(1) by (rule radius_nonneg)
  have "2 * scaled n (float_lit 5 100) \<le> box_right n - box_left n"
       "2 * scaled n (float_lit 5 100) \<le> box_bottom n - box_top n"
    using radius_le_half_box[OF assms(1)] by (simp_all add: box_right_def box_bottom_def)
  with r assms(2) show ?thesis
    by (auto simp: box_covers_def Let_def in_box_def in_ellipse_def)
qed

lemma create_icon_Inr_nonneg: "create_icon pil n = Some (Inr img) \<Longrightarrow> 0 \<le> n"
proof (rule ccontr)
  assume r: "create_icon pil n = Some (Inr img)" and "\<not> 0 \<le> n"
  then have "create_gradient n color1 color2 = Inl ValueError"
    by (simp add: create_gradient_def image_new_def)
  then have "create_icon pil n = Some (Inl ValueError)" by (simp add: create_icon_def)
  with r show False by simp
qed

lemma draw_emblem_size:
  assumes n: "0 \<le> n" and d: "draw_emblem pil n img = Inr img'"
  shows "width img' = width img" "height img' = height img"
proof -
  let ?pull = "(center n - pull_size n, pull_y n, center n + pull_size n, pull_y n + pull_size n * 2)"
  let ?gem = "(center n - gem_size n, crown_y n + gem_size n,
         center n + gem_size n, crown_y n + gem_size n * 3)"
  have o: "ordered ?pull" "ordered ?gem"
    using pull_size_nonneg[OF n] gem_size_nonneg[OF n] by (simp_all add: ordered_def)
  have "draw_emblem pil n img = Inr (paint (polygon pil (paint img (in_ellipse pil ?pull) (255, 215, 0, 255))
      (points n) (255, 215, 0, 255)) (in_ellipse pil ?gem) (255, 100, 100, 255))"
    by (simp add: draw_emblem_def ellipse_ordered o)
  with d show "width img' = width img" "height img' = height img"
    by (auto simp: polygon_def)
qed

lemma create_icon_alpha:
  assumes r: "create_icon pil n = Some (Inr img)"
  shows "width img = n" "height img = n"
    and "0 \<le> x \<and> x < n \<and> 0 \<le> y \<and> y < n \<Longrightarrow>
      alpha (pixel img x y) =
        (if box_covers pil n x y \<and> \<not> teeth_cover n x y \<and> \<not> emblem_covers pil n x y
         then 230 else 255)"
proof -
  note n = create_icon_Inr_nonneg[OF r]
  from create_gradient_ok[OF n, of color1 color2]
  obtain g where g: "create_gradient n color1 color2 = Inr g" "canvas_ok n g"
    and ga: "\<And>x y. on_canvas g x y \<Longrightarrow> alpha (pixel g x y) = 255" by blast
  have rr: "0 \<le> scaled n (float_lit 5 100)"
    "2 * scaled n (float_lit 5 100) \<le> box_right n - box_left n"
    "2 * scaled n (float_lit 5 100) \<le> box_bottom n - box_top n"
    using radius_nonneg[OF n] radius_le_half_box[OF n] by (simp_all add: box_right_def box_bottom_def)
  from draw_rounded_rect_ok[OF g(2) solid_inks(1) rr, of pil]
  obtain b where b: "draw_rounded_rect pil g (box_left n, box_top n, box_right n, box_bottom n)
       (scaled n (float_lit 5 100)) (255, 255, 255, 230) = Inr b" by blast
  note bp = draw_rounded_rect_pixels[OF b rr]
  from r obtain t where t: "teeth_loop pil (zipper_x n) (zipper_width n) (tooth_height n)
       (tooth_gap n) (zipper_bottom n) (zipper_top n) True b = Some (Inr t)"
    and e: "draw_emblem pil n t = Inr img"
    by (auto simp: create_icon_def g b split: option.splits sum.splits)
  have "2 \<le> zipper_width n \<longrightarrow> 1 \<le> tooth_gap n" using wide_teeth_have_gap by blast
  from teeth_loop_Inr[OF t tooth_gap_nonneg[OF n] this]
  have te: "t = fill_boxes b (drawn_teeth (teeth (zipper_x n) (zipper_width n) (tooth_height n)
       (tooth_gap n) (zipper_top n) True
       (tooth_count (tooth_gap n) (zipper_top n) (zipper_bottom n) (tooth_height n))))" .
  have gd: "width g = n" "height g = n" using g(2) by (simp_all add: canvas_ok_def)
  have bd: "width b = n" "height b = n" using bp(1,2) gd by simp_all
  have td: "width t = n" "height t = n" unfolding te using bd by simp_all
  show "width img = n" "height img = n"
    using draw_emblem_size[OF n e] td by simp_all
  assume xy: "0 \<le> x \<and> x < n \<and> 0 \<le> y \<and> y < n"
  then have on: "on_canvas g x y" "on_canvas b x y" "on_canvas t x y"
    using gd bd td by (simp_all add: on_canvas_def)
  have a1: "alpha (pixel b x y) = (if box_covers pil n x y then 230 else 255)"
    unfolding bp(3) using on(1) ga[OF on(1)]
    by (simp add: box_covers_def Let_def ink_def alpha_def clip8_def)
  have a2: "alpha (pixel t x y) = (if teeth_cover n x y then 255 else alpha (pixel b x y))"
    unfolding te teeth_cover_def by (rule alpha_teeth[OF on(2)])
  have a3: "alpha (pixel img x y) = (if emblem_covers pil n x y then 255 else alpha (pixel t x y))"
    by (rule draw_emblem_alpha(1)[OF n e on(3)])
  show "alpha (pixel img x y) =
        (if box_covers pil n x y \<and> \<not> teeth_cover n x y \<and> \<not> emblem_covers pil n x y
         then 230 else 255)"
    unfolding a3 a2 a1 by simp
qed

lemma create_icon_no_teeth:
  assumes n: "0 \<le> n" and ne: "\<not> zipper_top n < zipper_bottom n - tooth_height n"
  shows "\<exists>img. create_icon pil n = Some (Inr img)"
proof -
  from create_gradient_ok[OF n, of color1 color2]
  obtain g where g: "create_gradient n color1 color2 = Inr g" "canvas_ok n g" by blast
  have "2 * scaled n (float_lit 5 100) \<le> box_right n - box_left n"
       "2 * scaled n (float_lit 5 100) \<le> box_bottom n - box_top n"
    using radius_le_half_box[OF n] by (simp_all add: box_right_def box_bottom_def)
  from draw_rounded_rect_ok[OF g(2) solid_inks(1) radius_nonneg[OF n] this, of pil]
  obtain b where b: "draw_rounded_rect pil g (box_left n, box_top n, box_right n, box_bottom n)
       (scaled n (float_lit 5 100)) (255, 255, 255, 230) = Inr b" "canvas_ok n b" by blast
  have t: "teeth_loop pil (zipper_x n) (zipper_width n) (tooth_height n) (tooth_gap n)
       (zipper_bottom n) (zipper_top n) True b = Some (Inr b)"
    using ne by (rule teeth_loop_done)
  from draw_emblem_ok[OF n b(2), of pil]
  obtain e where e: "draw_emblem pil n b = Inr e" by blast
  show ?thesis by (simp add: create_icon_def g b t e)
qed

lemma scaled_0: "scaled 0 c = 0"
proof -
  have r: "rnd 0 = 0" by (simp add: rnd_def)
  show ?thesis by (simp add: scaled_def int_mul_float_def py_float_def py_int_def r)
qed

lemma scaled_1:
  "scaled 1 (float_lit 5 10) = 0" "scaled 1 (float_lit 5 100) = 0"
  "scaled 1 (float_lit 8 100) = 0" "scaled 1 (float_lit 4 100) = 0"
  unfolding scaled_def int_mul_float_def py_float_id[of 1, simplified]
    lit_5_10 lit_5_100 lit_8_100 lit_4_100
  by code_simp+

lemma create_icon_tiny: "n = 0 \<or> n = 1 \<Longrightarrow> \<exists>img. create_icon pil n = Some (Inr img)"
proof -
  assume "n = 0 \<or> n = 1"
  then have "0 \<le> n" "\<not> zipper_top n < zipper_bottom n - tooth_height n"
    by (auto simp: zipper_top_def zipper_bottom_def tooth_height_def box_bottom_def box_top_def
        box_size_def center_def scaled_0 scaled_1)
  then show ?thesis by (rule create_icon_no_teeth)
qed

lemma scaled_le:
  assumes n: "n \<le> n0" "\<bar>n0\<bar> \<le> 2 ^ 53" and c: "0 \<le> c"
    and up: "of_int n0 * c \<le> q" and q: "is_double q" "q < of_int (k + 1)" and k: "0 \<le> k"
  shows "scaled n c \<le> k"
proof -
  have "py_float n \<le> of_int n0" using n by (intro py_float_le) simp_all
  then have "py_float n * c \<le> of_int n0 * c" using c by (rule mult_right_mono)
  with up have "py_float n * c \<le> q" by simp
  with q(1) have "rnd (py_float n * c) \<le> q" by (intro rnd_le)
  with q(2) have lt: "rnd (py_float n * c) < of_int (k + 1)" by simp
  show ?thesis
  proof (cases "0 \<le> rnd (py_float n * c)")
    case True
    from lt have "\<lfloor>rnd (py_float n * c)\<rfloor> < k + 1" by (simp only: floor_less_iff)
    with True show ?thesis by (simp add: scaled_def int_mul_float_def py_int_def)
  next
    case False
    then have "\<lceil>rnd (py_float n * c)\<rceil> \<le> 0" by (simp add: ceiling_le_iff)
    with k have "\<lceil>rnd (py_float n * c)\<rceil> \<le> k" by linarith
    with False show ?thesis by (simp add: scaled_def int_mul_float_def py_int_def)
  qed
qed

lemma is_double_31_32: "is_double (31 / 32)"
  using is_double_frac[of 31 5] by simp

lemma tooth_height_small: "n \<le> 24 \<Longrightarrow> tooth_height n \<le> 0"
  unfolding tooth_height_def
  by (rule scaled_le[of n 24 _ "of_int 31 / 2 ^ 5"]) (simp_all add: lit_4_100 is_double_31_32)

lemma zipper_reach_small: "n \<le> 12 \<Longrightarrow> scaled n (float_lit 8 100) \<le> 0"
  by (rule scaled_le[of n 12 _ "of_int 31 / 2 ^ 5"]) (simp_all add: lit_8_100 is_double_31_32)

lemma box_size_ge_1: "2 \<le> n \<Longrightarrow> 1 \<le> box_size n"
  unfolding box_size_def by (rule scaled_ge[of 1 2]) (simp_all add: lit_5_10)

lemma box_size_ge_3: "6 \<le> n \<Longrightarrow> 3 \<le> box_size n"
  unfolding box_size_def by (rule scaled_ge[of 3 6]) (simp_all add: lit_5_10)

lemma teeth_loop_entered:
  assumes "2 \<le> n" "n \<le> 24"
  shows "zipper_top n < zipper_bottom n - tooth_height n"
proof -
  have th: "tooth_height n \<le> 0" using assms(2) by (rule tooth_height_small)
  have k0: "0 \<le> scaled n (float_lit 8 100)"
    using assms(1) by (intro scaled_nonneg) (simp_all add: lit_8_100)
  have k1: "scaled n (float_lit 8 100) \<le> 1"
    using zipper_width_small[OF assms(2)] by (simp add: zipper_width_def)
  have "2 * scaled n (float_lit 8 100) < box_size n"
  proof (cases "n \<le> 12")
    case True
    from zipper_reach_small[OF this] box_size_ge_1[OF assms(1)] show ?thesis by simp
  next
    case False
    then have "6 \<le> n" by simp
    from box_size_ge_3[OF this] k1 show ?thesis by simp
  qed
  with th show ?thesis by (simp add: zipper_top_def zipper_bottom_def box_bottom_def)
qed

lemma create_icon_negative: "n < 0 \<Longrightarrow> create_icon pil n = Some (Inl ValueError)"
  by (simp add: create_icon_def create_gradient_def image_new_def)

lemma create_icon_box:
  assumes n: "0 \<le> n"
  shows "\<exists>b. bind_err (create_gradient n color1 color2) (\<lambda>img.
              draw_rounded_rect pil img (box_left n, box_top n, box_right n, box_bottom n)
                (scaled n (float_lit 5 100)) (255, 255, 255, 230)) = Inr b"
proof -
  from create_gradient_ok[OF n, of color1 color2]
  obtain g where g: "create_gradient n color1 color2 = Inr g" "canvas_ok n g" by blast
  have "2 * scaled n (float_lit 5 100) \<le> box_right n - box_left n"
       "2 * scaled n (float_lit 5 100) \<le> box_bottom n - box_top n"
    using radius_le_half_box[OF n] by (simp_all add: box_right_def box_bottom_def)
  from draw_rounded_rect_ok[OF g(2) solid_inks(1) radius_nonneg[OF n] this, of pil]
  show ?thesis by (auto simp: g)
qed

lemma create_icon_small_strict:
  assumes "2 \<le> n" "n \<le> 24" "strict pil"
  shows "create_icon pil n = Some (Inl ValueError)"
proof -
  from assms(1) have "0 \<le> n" by simp
  from create_icon_box[OF this, of pil] obtain b where
    b: "bind_err (create_gradient n color1 color2) (\<lambda>img.
              draw_rounded_rect pil img (box_left n, box_top n, box_right n, box_bottom n)
                (scaled n (float_lit 5 100)) (255, 255, 255, 230)) = Inr b" by blast
  have "\<not> ordered (tooth_box (zipper_x n) (zipper_width n) (tooth_height n) (zipper_top n) True)"
    using zipper_width_small[OF assms(2)] by (simp add: ordered_tooth_box_iff)
  then have "rectangle pil b (tooth_box (zipper_x n) (zipper_width n) (tooth_height n) (zipper_top n) True)
      (tooth_fill True) = Inl ValueError"
    using assms(3) by (simp add: rectangle_def)
  with teeth_loop_entered[OF assms(1,2)]
  have "teeth_loop pil (zipper_x n) (zipper_width n) (tooth_height n) (tooth_gap n)
      (zipper_bottom n) (zipper_top n) True b = Some (Inl ValueError)"
    by (rule teeth_loop_raise)
  then show ?thesis by (simp add: create_icon_def b)
qed

lemma create_icon_small_lenient:
  assumes "2 \<le> n" "n \<le> 16" "\<not> strict pil"
  shows "create_icon pil n = None"
proof -
  from assms(1) have n: "0 \<le> n" by simp
  from create_icon_box[OF this, of pil] obtain b where
    b: "bind_err (create_gradient n color1 color2) (\<lambda>img.
              draw_rounded_rect pil img (box_left n, box_top n, box_right n, box_bottom n)
                (scaled n (float_lit 5 100)) (255, 255, 255, 230)) = Inr b" by blast
  have g: "tooth_gap n = 0" using tooth_gap_small[OF assms(2)] tooth_gap_nonneg[OF n] by simp
  from assms(2) have "n \<le> 24" by simp
  from teeth_loop_entered[OF assms(1) this]
  have "teeth_loop pil (zipper_x n) (zipper_width n) (tooth_height n) (tooth_gap n)
      (zipper_bottom n) (zipper_top n) True b = None"
    using g assms(3) by (intro teeth_loop_diverges) simp_all
  then show ?thesis by (simp add: create_icon_def b)
qed

lemma teeth_cover_iff:
  "teeth_cover n x y \<longleftrightarrow>
     (\<exists>k < tooth_count (tooth_gap n) (zipper_top n) (zipper_bottom n) (tooth_height n).
        in_box (drawn_box (tooth_box (zipper_x n) (zipper_width n) (tooth_height n)
          (zipper_top n + int k * tooth_gap n) (even k))) x y)"
  by (auto simp: teeth_cover_def teeth_def list_ex_iff)

lemma covers_1024:
  "box_covers coarse_pillow 1024 300 600" "\<not> teeth_cover 1024 300 600"
  "\<not> emblem_covers coarse_pillow 1024 300 600"
  "teeth_cover 1024 450 400" "\<not> box_covers coarse_pillow 1024 10 10"
proof -
  show "box_covers coarse_pillow 1024 300 600"
    by (simp add: box_covers_def geometry_1024 scaled_1024 in_box_def)
  show "\<not> teeth_cover 1024 300 600"
    by (auto simp: teeth_cover_iff geometry_1024 tooth_box_def drawn_box_def ordered_def in_box_def)
  show "\<not> emblem_covers coarse_pillow 1024 300 600"
    by (simp add: emblem_covers_def geometry_1024 in_ellipse_def in_box_def bounding_box_def)
  have c: "0 < tooth_count 61 388 738 40" by (simp add: tooth_count_def)
  show "teeth_cover 1024 450 400"
    unfolding teeth_cover_iff geometry_1024
    by (rule exI[of _ 0]) (simp add: c tooth_box_def drawn_box_def ordered_def in_box_def)
  show "\<not> box_covers coarse_pillow 1024 10 10"
    by (simp add: box_covers_def geometry_1024 scaled_1024 in_box_def in_ellipse_def)
qed

lemma covers_1: "emblem_covers coarse_pillow 1 0 0"
  by (simp add: emblem_covers_def in_ellipse_def in_box_def coarse_pillow_def center_def pull_size_def
      pull_y_def zipper_top_def box_top_def box_size_def scaled_1)

text \<open>
  Claim C2, as stated, fails. \<^verbatim>\<open>draw_rounded_rect\<close> fills the box with
  \<open>(255, 255, 255, 230)\<close> and \<^verbatim>\<open>ImageDraw\<close> stores that alpha: pixel \<open>(300, 600)\<close> of
  \<^verbatim>\<open>create_icon(1024)\<close>, inside the box and outside every later shape, has alpha 230.
  And \<^verbatim>\<open>create_icon(2)\<close> returns no canvas: the first tooth is the box
  \<open>(1, 1, -1, 1)\<close>, which a checking Pillow refuses, and which an older Pillow draws
  again and again, since \<^verbatim>\<open>tooth_gap\<close> is 0.
\<close>

theorem create_icon_not_opaque:
  "returned_pixel (create_icon coarse_pillow 1024) 300 600 = Some (Inr (255, 255, 255, 230))
   \<and> create_icon coarse_pillow 2 = Some (Inl ValueError)
   \<and> create_icon (coarse_pillow\<lparr>strict := False\<rparr>) 2 = None"
proof -
  from create_icon_1024_pixel[of coarse_pillow] obtain img where
    "create_icon coarse_pillow 1024 = Some (Inr img)" "pixel img 300 600 = (255, 255, 255, 230)"
    by blast
  then have "returned_pixel (create_icon coarse_pillow 1024) 300 600 = Some (Inr (255, 255, 255, 230))"
    by (simp add: returned_pixel_def)
  moreover have "create_icon coarse_pillow 2 = Some (Inl ValueError)"
    by (rule create_icon_2_strict) (simp add: coarse_pillow_def)
  moreover have "create_icon (coarse_pillow\<lparr>strict := False\<rparr>) 2 = None"
    by (rule create_icon_2_lenient) simp
  ultimately show ?thesis by simp
qed

text \<open>
  Claim C2, amended. The background alone is fully opaque: for every side \<open>n \<ge> 0\<close>,
  \<^verbatim>\<open>create_gradient\<close> returns an \<open>n \<times> n\<close> canvas with alpha 255 everywhere.
  \<^verbatim>\<open>create_icon\<close> returns a canvas exactly for the sides 0 and 1, for every side from 25
  on, and from 17 on when Pillow does not check the order of coordinates; it raises
  \<^verbatim>\<open>ValueError\<close> for a negative side and, under a checking Pillow, for the sides 2 to 24,
  and it does not return for the sides 2 to 16 under a Pillow that does not check.
  Whenever it returns a canvas, for every side and every rasteriser, the canvas is
  \<open>n \<times> n\<close> and a pixel has alpha 230 exactly when the rounded box covers it and no
  tooth, pull, crown or gem does; every other pixel has alpha 255, in particular every
  pixel outside the rectangle from \<open>(box_left, box_top)\<close> to \<open>(box_right, box_bottom)\<close>.
\<close>

theorem create_icon_canvas:
  "(0 \<le> n \<longrightarrow> (\<exists>g. create_gradient n color1 color2 = Inr g \<and> width g = n \<and> height g = n \<and>
       (\<forall>x y. 0 \<le> x \<and> x < n \<and> 0 \<le> y \<and> y < n \<longrightarrow> alpha (pixel g x y) = 255))) \<and>
   ((\<exists>img. create_icon pil n = Some (Inr img)) \<longleftrightarrow>
       n = 0 \<or> n = 1 \<or> 25 \<le> n \<or> (\<not> strict pil \<and> 17 \<le> n)) \<and>
   (n < 0 \<or> (strict pil \<and> 2 \<le> n \<and> n \<le> 24) \<longrightarrow> create_icon pil n = Some (Inl ValueError)) \<and>
   (\<not> strict pil \<and> 2 \<le> n \<and> n \<le> 16 \<longrightarrow> create_icon pil n = None) \<and>
   (\<forall>img. create_icon pil n = Some (Inr img) \<longrightarrow>
      width img = n \<and> height img = n \<and>
      (\<forall>x y. 0 \<le> x \<and> x < n \<and> 0 \<le> y \<and> y < n \<longrightarrow>
         alpha (pixel img x y) =
           (if box_covers pil n x y \<and> \<not> teeth_cover n x y \<and> \<not> emblem_covers pil n x y
            then 230 else 255)) \<and>
      (\<forall>x y. 0 \<le> x \<and> x < n \<and> 0 \<le> y \<and> y < n \<and>
           \<not> (box_left n \<le> x \<and> x \<le> box_right n \<and> box_top n \<le> y \<and> y \<le> box_bottom n) \<longrightarrow>
         alpha (pixel img x y) = 255))"
proof (intro conjI impI allI)
  assume "0 \<le> n"
  from create_gradient_ok[OF this, of color1 color2] show
    "\<exists>g. create_gradient n color1 color2 = Inr g \<and> width g = n \<and> height g = n \<and>
       (\<forall>x y. 0 \<le> x \<and> x < n \<and> 0 \<le> y \<and> y < n \<longrightarrow> alpha (pixel g x y) = 255)"
    by (auto simp: canvas_ok_def on_canvas_def)
next
  show "(\<exists>img. create_icon pil n = Some (Inr img)) \<longleftrightarrow>
       n = 0 \<or> n = 1 \<or> 25 \<le> n \<or> (\<not> strict pil \<and> 17 \<le> n)"
  proof
    assume "\<exists>img. create_icon pil n = Some (Inr img)"
    then obtain img where r: "create_icon pil n = Some (Inr img)" by blast
    have 1: "\<not> n < 0" using create_icon_negative[of n pil] r by auto
    have 2: "\<not> (2 \<le> n \<and> n \<le> 24 \<and> strict pil)" using create_icon_small_strict[of n pil] r by auto
    have 3: "\<not> (2 \<le> n \<and> n \<le> 16 \<and> \<not> strict pil)" using create_icon_small_lenient[of n pil] r by auto
    from 1 2 3 show "n = 0 \<or> n = 1 \<or> 25 \<le> n \<or> (\<not> strict pil \<and> 17 \<le> n)" by linarith
  next
    assume a: "n = 0 \<or> n = 1 \<or> 25 \<le> n \<or> (\<not> strict pil \<and> 17 \<le> n)"
    show "\<exists>img. create_icon pil n = Some (Inr img)"
    proof (cases "n = 0 \<or> n = 1")
      case True
      then show ?thesis by (rule create_icon_tiny)
    next
      case False
      with a have "25 \<le> n \<or> (\<not> strict pil \<and> 17 \<le> n)" by blast
      from create_icon_returns[OF this] show ?thesis by blast
    qed
  qed
next
  assume "n < 0 \<or> (strict pil \<and> 2 \<le> n \<and> n \<le> 24)"
  then show "create_icon pil n = Some (Inl ValueError)"
    using create_icon_negative[of n pil] create_icon_small_strict[of n pil] by blast
next
  assume "\<not> strict pil \<and> 2 \<le> n \<and> n \<le> 16"
  then show "create_icon pil n = None" using create_icon_small_lenient[of n pil] by blast
next
  fix img assume "create_icon pil n = Some (Inr img)"
  then show "width img = n" by (rule create_icon_alpha(1))
next
  fix img assume "create_icon pil n = Some (Inr img)"
  then show "height img = n" by (rule create_icon_alpha(2))
next
  fix img x y
  assume "create_icon pil n = Some (Inr img)" and "0 \<le> x \<and> x < n \<and> 0 \<le> y \<and> y < n"
  then show "alpha (pixel img x y) =
           (if box_covers pil n x y \<and> \<not> teeth_cover n x y \<and> \<not> emblem_covers pil n x y
            then 230 else 255)"
    by (rule create_icon_alpha(3))
next
  fix img x y
  assume r: "create_icon pil n = Some (Inr img)"
    and xy: "0 \<le> x \<and> x < n \<and> 0 \<le> y \<and> y < n \<and>
           \<not> (box_left n \<le> x \<and> x \<le> box_right n \<and> box_top n \<le> y \<and> y \<le> box_bottom n)"
  from xy have n: "0 \<le> n" by linarith
  have "\<not> box_covers pil n x y" using box_covers_inside[OF n, of pil x y] xy by blast
  moreover from xy have "0 \<le> x \<and> x < n \<and> 0 \<le> y \<and> y < n" by blast
  ultimately show "alpha (pixel img x y) = 255" using create_icon_alpha(3)[OF r] by simp
qed

theorem create_icon_canvas_witness:
  "(25::int) \<le> 1024 \<and>
   (\<exists>g. create_gradient 1024 color1 color2 = Inr g \<and> width g = 1024 \<and> height g = 1024 \<and>
      alpha (pixel g 300 600) = 255) \<and>
   (\<exists>img. create_icon coarse_pillow 1024 = Some (Inr img) \<and> width img = 1024 \<and> height img = 1024 \<and>
      box_covers coarse_pillow 1024 300 600 \<and> \<not> teeth_cover 1024 300 600 \<and>
      \<not> emblem_covers coarse_pillow 1024 300 600 \<and> alpha (pixel img 300 600) = 230 \<and>
      teeth_cover 1024 450 400 \<and> alpha (pixel img 450 400) = 255 \<and>
      \<not> (box_left 1024 \<le> (10::int) \<and> (10::int) \<le> box_right 1024 \<and>
         box_top 1024 \<le> (10::int) \<and> (10::int) \<le> box_bottom 1024) \<and>
      alpha (pixel img 10 10) = 255) \<and>
   (\<exists>img. create_icon coarse_pillow 1 = Some (Inr img) \<and> width img = 1 \<and> height img = 1 \<and>
      emblem_covers coarse_pillow 1 0 0 \<and> alpha (pixel img 0 0) = 255) \<and>
   create_icon coarse_pillow (- 1) = Some (Inl ValueError) \<and>
   strict coarse_pillow \<and> create_icon coarse_pillow 24 = Some (Inl ValueError) \<and>
   \<not> strict (coarse_pillow\<lparr>strict := False\<rparr>) \<and>
   create_icon (coarse_pillow\<lparr>strict := False\<rparr>) 16 = None"
proof -
  note big = create_icon_canvas[of 1024 coarse_pillow]
  note one = create_icon_canvas[of 1 coarse_pillow]
  note neg = create_icon_canvas[of "- 1" coarse_pillow]
  note mid = create_icon_canvas[of 24 coarse_pillow]
  note len = create_icon_canvas[of 16 "coarse_pillow\<lparr>strict := False\<rparr>"]
  from big obtain g where g: "create_gradient 1024 color1 color2 = Inr g" "width g = 1024"
    "height g = 1024" "alpha (pixel g 300 600) = 255" by auto
  from big obtain img where r: "create_icon coarse_pillow 1024 = Some (Inr img)" by auto
  with big have d: "width img = 1024" "height img = 1024" by blast+
  from big r have a: "\<And>x y. 0 \<le> x \<and> x < 1024 \<and> 0 \<le> y \<and> y < 1024 \<Longrightarrow>
      alpha (pixel img x y) =
        (if box_covers coarse_pillow 1024 x y \<and> \<not> teeth_cover 1024 x y \<and>
            \<not> emblem_covers coarse_pillow 1024 x y then 230 else 255)" by blast
  from big r have o: "\<And>x y. 0 \<le> x \<and> x < 1024 \<and> 0 \<le> y \<and> y < 1024 \<and>
      \<not> (box_left 1024 \<le> x \<and> x \<le> box_right 1024 \<and> box_top 1024 \<le> y \<and> y \<le> box_bottom 1024) \<Longrightarrow>
      alpha (pixel img x y) = 255" by blast
  have p1: "alpha (pixel img 300 600) = 230" using a[of 300 600] by (simp add: covers_1024)
  have p2: "alpha (pixel img 450 400) = 255" using a[of 450 400] by (simp add: covers_1024)
  have out: "\<not> (box_left 1024 \<le> (10::int) \<and> (10::int) \<le> box_right 1024 \<and>
         box_top 1024 \<le> (10::int) \<and> (10::int) \<le> box_bottom 1024)"
    by (simp add: geometry_1024)
  have p3: "alpha (pixel img 10 10) = 255" using o[of 10 10] out by simp
  from one obtain i1 where r1: "create_icon coarse_pillow 1 = Some (Inr i1)" by auto
  with one have d1: "width i1 = 1" "height i1 = 1" by blast+
  from one r1 have "alpha (pixel i1 0 0) =
        (if box_covers coarse_pillow 1 0 0 \<and> \<not> teeth_cover 1 0 0 \<and>
            \<not> emblem_covers coarse_pillow 1 0 0 then 230 else 255)" by simp
  then have q1: "alpha (pixel i1 0 0) = 255" by (simp add: covers_1)
  have s: "strict coarse_pillow" by (simp add: coarse_pillow_def)
  from neg have e1: "create_icon coarse_pillow (- 1) = Some (Inl ValueError)" by simp
  from mid s have e2: "create_icon coarse_pillow 24 = Some (Inl ValueError)" by simp
  from len have e3: "create_icon (coarse_pillow\<lparr>strict := False\<rparr>) 16 = None" by simp
  from g r d p1 p2 out p3 r1 d1 q1 e1 e2 e3 s covers_1024 covers_1 show ?thesis by auto
qed

section \<open>The zipper teeth\<close>

lemma scaled_100:
  "scaled 100 (float_lit 5 10) = 50" "scaled 100 (float_lit 5 100) = 5"
  "scaled 100 (float_lit 8 100) = 8" "scaled 100 (float_lit 4 100) = 4"
  "scaled 100 (float_lit 6 100) = 6"
  unfolding scaled_def int_mul_float_def py_float_id[of 100, simplified]
    lit_5_10 lit_5_100 lit_8_100 lit_4_100 lit_6_100
  by code_simp+

text \<open>
  Claim C8, as stated, fails on the width. \<^verbatim>\<open>zipper_width = int(size * 0.08)\<close> is the
  distance from the centre line to the far edge of a tooth, and the near edge stays 2
  pixels off the centre line. At side 100 the first tooth is the box \<open>(42, 38, 48, 42)\<close>:
  7 pixel columns (6 from edge to edge), not \<open>zipper_width = 8\<close>; its 5 rows span
  \<open>tooth_height = 4\<close> from edge to edge.
\<close>

theorem tooth_narrower_than_zipper_width:
  "tooth_box (zipper_x 100) (zipper_width 100) (tooth_height 100) (zipper_top 100) True
     = (42, 38, 48, 42)
   \<and> box_columns (42, 38, 48, 42) = 7 \<and> box_rows (42, 38, 48, 42) = 5
   \<and> zipper_width 100 = 8 \<and> tooth_height 100 = 4"
  by (simp add: tooth_box_def zipper_x_def zipper_width_def tooth_height_def zipper_top_def
      box_top_def box_size_def center_def scaled_100 box_columns_def box_rows_def)

lemma tooth_count_less:
  assumes "1 \<le> gap"
  shows "k < tooth_count gap y zb th \<longleftrightarrow> y + int k * gap < zb - th"
proof -
  define a where "a = zb - th - y + gap - 1"
  have b: "0 < gap" using assms by simp
  have a: "a = a div gap * gap + a mod gap" by simp
  have m: "0 \<le> a mod gap" "a mod gap < gap" using b by simp_all
  have "int k < a div gap \<longleftrightarrow> (int k + 1) * gap \<le> a"
  proof
    assume "int k < a div gap"
    then have "int k + 1 \<le> a div gap" by simp
    then have "(int k + 1) * gap \<le> a div gap * gap" using b by (intro mult_right_mono) simp_all
    with a m(1) show "(int k + 1) * gap \<le> a" by linarith
  next
    assume "(int k + 1) * gap \<le> a"
    with a m(2) have "(int k + 1) * gap < a div gap * gap + gap" by linarith
    then have "(int k + 1) * gap < (a div gap + 1) * gap" by (simp add: algebra_simps)
    then have "int k + 1 < a div gap + 1" using b by (simp add: mult_less_cancel_right)
    then show "int k < a div gap" by simp
  qed
  also have "\<dots> \<longleftrightarrow> y + int k * gap < zb - th" unfolding a_def by (simp add: algebra_simps) linarith
  finally show ?thesis unfolding tooth_count_def a_def[symmetric] by (simp add: zless_nat_eq_int_zless)
qed

text \<open>
  Claim C8, amended. For every side \<open>n \<ge> 25\<close> the teeth loop returns the canvas with
  these boxes painted in order, \<open>k = 0, 1, \<dots>\<close>: tooth \<open>k\<close> starts at
  \<open>y = box_top + int(0.08 n) + k * int(0.06 n)\<close> and ends at \<open>y + int(0.04 n)\<close>; an even \<open>k\<close>
  is a left tooth, from \<open>center - int(0.08 n)\<close> to \<open>center - 2\<close>, filled with the start
  colour \<open>(102, 126, 234)\<close> at alpha 255; an odd \<open>k\<close> is a right tooth, from \<open>center + 2\<close>
  to \<open>center + int(0.08 n)\<close>, filled with the end colour \<open>(118, 75, 162)\<close> at alpha 255.
  Tooth \<open>k\<close> is drawn exactly when its \<open>y\<close> is below
  \<open>box_bottom - int(0.08 n) - int(0.04 n)\<close>.
\<close>

theorem teeth_drawn:
  "25 \<le> n \<longrightarrow>
     teeth_loop pil (zipper_x n) (zipper_width n) (tooth_height n) (tooth_gap n)
         (zipper_bottom n) (zipper_top n) True img =
       Some (Inr (fill_boxes img
         (map (\<lambda>k. let y = box_top n + scaled n (float_lit 8 100) + int k * scaled n (float_lit 6 100)
                    in if even k
                       then ((center n - scaled n (float_lit 8 100), y,
                              center n - 2, y + scaled n (float_lit 4 100)), (102, 126, 234, 255))
                       else ((center n + 2, y,
                              center n + scaled n (float_lit 8 100), y + scaled n (float_lit 4 100)),
                             (118, 75, 162, 255)))
            [0..<tooth_count (tooth_gap n) (zipper_top n) (zipper_bottom n) (tooth_height n)])))
     \<and> (\<forall>k. k < tooth_count (tooth_gap n) (zipper_top n) (zipper_bottom n) (tooth_height n) \<longleftrightarrow>
            box_top n + scaled n (float_lit 8 100) + int k * scaled n (float_lit 6 100)
              < box_bottom n - scaled n (float_lit 8 100) - scaled n (float_lit 4 100))
     \<and> 1 \<le> scaled n (float_lit 6 100) \<and> 2 \<le> scaled n (float_lit 8 100)
     \<and> 0 \<le> scaled n (float_lit 4 100)"
proof (intro impI conjI allI)
  assume n: "25 \<le> n"
  then have g: "1 \<le> tooth_gap n" and w: "2 \<le> zipper_width n" and h: "0 \<le> tooth_height n"
    using tooth_gap_pos[of n] zipper_width_ge[of n] tooth_height_nonneg[of n] by simp_all
  show "1 \<le> scaled n (float_lit 6 100)" using g by (simp add: tooth_gap_def)
  show "2 \<le> scaled n (float_lit 8 100)" using w by (simp add: zipper_width_def)
  show "0 \<le> scaled n (float_lit 4 100)" using h by (simp add: tooth_height_def)
  show "k < tooth_count (tooth_gap n) (zipper_top n) (zipper_bottom n) (tooth_height n) \<longleftrightarrow>
            box_top n + scaled n (float_lit 8 100) + int k * scaled n (float_lit 6 100)
              < box_bottom n - scaled n (float_lit 8 100) - scaled n (float_lit 4 100)" for k
    unfolding tooth_count_less[OF g]
    by (simp add: zipper_top_def zipper_bottom_def tooth_gap_def tooth_height_def)
  have "teeth (zipper_x n) (zipper_width n) (tooth_height n) (tooth_gap n) (zipper_top n) True m =
      map (\<lambda>k. let y = box_top n + scaled n (float_lit 8 100) + int k * scaled n (float_lit 6 100)
                    in if even k
                       then ((center n - scaled n (float_lit 8 100), y,
                              center n - 2, y + scaled n (float_lit 4 100)), (102, 126, 234, 255))
                       else ((center n + 2, y,
                              center n + scaled n (float_lit 8 100), y + scaled n (float_lit 4 100)),
                             (118, 75, 162, 255))) [0..<m]" for m
    by (simp add: teeth_def tooth_box_def tooth_fill_def Let_def zipper_top_def zipper_x_def
        zipper_width_def tooth_height_def tooth_gap_def with_alpha_def color1_def color2_def)
  then show "teeth_loop pil (zipper_x n) (zipper_width n) (tooth_height n) (tooth_gap n)
         (zipper_bottom n) (zipper_top n) True img =
       Some (Inr (fill_boxes img
         (map (\<lambda>k. let y = box_top n + scaled n (float_lit 8 100) + int k * scaled n (float_lit 6 100)
                    in if even k
                       then ((center n - scaled n (float_lit 8 100), y,
                              center n - 2, y + scaled n (float_lit 4 100)), (102, 126, 234, 255))
                       else ((center n + 2, y,
                              center n + scaled n (float_lit 8 100), y + scaled n (float_lit 4 100)),
                             (118, 75, 162, 255)))
            [0..<tooth_count (tooth_gap n) (zipper_top n) (zipper_bottom n) (tooth_height n)])))"
    using teeth_loop_paints[OF g w h, of pil "zipper_x n" "zipper_bottom n" "zipper_top n" True img]
    by simp
qed

lemma tooth_count_1024: "tooth_count 61 388 738 40 = Suc (Suc (Suc (Suc (Suc (Suc 0)))))"
  by (simp add: tooth_count_def eval_nat_numeral)

theorem teeth_drawn_witness:
  "(25::int) \<le> 1024 \<and>
   teeth_loop coarse_pillow 512 81 40 61 738 388 True \<lparr>width = 1024, height = 1024, pixel = (\<lambda>x y. (0, 0, 0, 0))\<rparr> =
     Some (Inr (fill_boxes \<lparr>width = 1024, height = 1024, pixel = (\<lambda>x y. (0, 0, 0, 0))\<rparr>
       [((431, 388, 510, 428), (102, 126, 234, 255)), ((514, 449, 593, 489), (118, 75, 162, 255)),
        ((431, 510, 510, 550), (102, 126, 234, 255)), ((514, 571, 593, 611), (118, 75, 162, 255)),
        ((431, 632, 510, 672), (102, 126, 234, 255)), ((514, 693, 593, 733), (118, 75, 162, 255))]))"
  using teeth_drawn[of 1024 coarse_pillow "\<lparr>width = 1024, height = 1024, pixel = (\<lambda>x y. (0, 0, 0, 0))\<rparr>"]
  by (simp add: geometry_1024 scaled_1024 tooth_count_1024 Let_def)

section \<open>The ends of the gradient\<close>

lemma rnd_0 [simp]: "rnd 0 = 0" by (simp add: rnd_def)

lemma rnd_of_int: "\<bar>n\<bar> \<le> 2 ^ 53 \<Longrightarrow> rnd (of_int n) = of_int n"
  by (rule rnd_id[OF is_double_int])

lemma int_add_float_0: "\<bar>n\<bar> \<le> 2 ^ 53 \<Longrightarrow> int_add_float n 0 = of_int n"
  by (simp add: int_add_float_def py_float_id rnd_of_int)

lemma gradient_color_origin: "gradient_color n color1 color2 0 0 = (102, 126, 234, 255)"
  by (simp add: gradient_color_def color1_def color2_def int_truediv_def int_mul_float_def
      int_add_float_0 py_int_def)

lemma rnd_between:
  "is_double a \<Longrightarrow> is_double b \<Longrightarrow> a \<le> x \<Longrightarrow> x \<le> b \<Longrightarrow> a \<le> rnd x \<and> rnd x \<le> b"
  by (simp add: rnd_ge rnd_le)

text \<open>One channel at the last pixel: the ratio is in [3985/4096, 1].\<close>

lemma channel_up:
  assumes r: "3985 / 4096 \<le> ratio" "ratio \<le> 1" and d: "0 \<le> d" "d \<le> 255" and s: "0 \<le> s" "s \<le> 255"
  shows "of_int s + of_int d * (3985 / 4096) \<le> int_add_float s (int_mul_float d ratio)"
    and "int_add_float s (int_mul_float d ratio) \<le> of_int (s + d)"
proof -
  have fd: "py_float d = of_int d" and fs: "py_float s = of_int s"
    using d s by (simp_all add: py_float_id)
  have "is_double (of_int (d * 3985) / 2 ^ 12)" using d by (intro is_double_frac) simp
  then have d1: "is_double (of_int d * (3985 / 4096))" by simp
  have d2: "is_double (of_int d)" using d by (intro is_double_int) simp
  have "of_int d * (3985 / 4096) \<le> of_int d * ratio"
    using r(1) d(1) by (intro mult_left_mono) simp_all
  moreover have "of_int d * ratio \<le> of_int d * 1"
    using r(2) d(1) by (intro mult_left_mono) simp_all
  ultimately have "of_int d * (3985 / 4096) \<le> of_int d * ratio" "of_int d * ratio \<le> of_int d"
    by simp_all
  from rnd_between[OF d1 d2 this]
  have m: "of_int d * (3985 / 4096) \<le> int_mul_float d ratio" "int_mul_float d ratio \<le> of_int d"
    by (simp_all add: int_mul_float_def fd)
  have "is_double (of_int (s * 4096 + d * 3985) / 2 ^ 12)" using d s by (intro is_double_frac) simp
  then have d3: "is_double (of_int s + of_int d * (3985 / 4096))" by (simp add: add_divide_distrib)
  have d4: "is_double (of_int (s + d))" using d s by (intro is_double_int) simp
  from rnd_between[OF d3 d4, of "of_int s + int_mul_float d ratio"] m
  show "of_int s + of_int d * (3985 / 4096) \<le> int_add_float s (int_mul_float d ratio)"
    and "int_add_float s (int_mul_float d ratio) \<le> of_int (s + d)"
    by (simp_all add: int_add_float_def fs)
qed

lemma channel_down:
  assumes r: "3985 / 4096 \<le> ratio" "ratio \<le> 1" and d: "0 \<le> d" "d \<le> 255" and s: "d \<le> s" "s \<le> 255"
  shows "of_int (s - d) \<le> int_add_float s (int_mul_float (- d) ratio)"
    and "int_add_float s (int_mul_float (- d) ratio) \<le> of_int s - of_int d * (3985 / 4096)"
proof -
  have fd: "py_float (- d) = - of_int d" and fs: "py_float s = of_int s"
    using d s by (simp_all add: py_float_id)
  have "is_double (of_int (- d * 3985) / 2 ^ 12)" using d by (intro is_double_frac) simp
  then have d1: "is_double (- (of_int d * (3985 / 4096)))" by simp
  have "is_double (of_int (- d))" using d by (intro is_double_int) simp
  then have d2: "is_double (- of_int d)" by simp
  have "of_int d * (3985 / 4096) \<le> of_int d * ratio"
    using r(1) d(1) by (intro mult_left_mono) simp_all
  moreover have "of_int d * ratio \<le> of_int d * 1"
    using r(2) d(1) by (intro mult_left_mono) simp_all
  ultimately have "of_int d * (3985 / 4096) \<le> of_int d * ratio" "of_int d * ratio \<le> of_int d"
    by simp_all
  then have "- of_int d \<le> - of_int d * ratio" "- of_int d * ratio \<le> - (of_int d * (3985 / 4096))"
    by simp_all
  from rnd_between[OF d2 d1 this]
  have m: "- of_int d \<le> int_mul_float (- d) ratio"
    "int_mul_float (- d) ratio \<le> - (of_int d * (3985 / 4096))"
    by (simp_all add: int_mul_float_def fd)
  have "is_double (of_int (s * 4096 - d * 3985) / 2 ^ 12)" using d s by (intro is_double_frac) simp
  then have d3: "is_double (of_int s - of_int d * (3985 / 4096))" by (simp add: diff_divide_distrib)
  have d4: "is_double (of_int (s - d))" using d s by (intro is_double_int) simp
  from rnd_between[OF d4 d3, of "of_int s + int_mul_float (- d) ratio"] m
  show "of_int (s - d) \<le> int_add_float s (int_mul_float (- d) ratio)"
    and "int_add_float s (int_mul_float (- d) ratio) \<le> of_int s - of_int d * (3985 / 4096)"
    by (simp_all add: int_add_float_def fs)
qed

lemma last_ratio:
  assumes "37 \<le> n"
  shows "3985 / 4096 \<le> int_truediv (n - 1 + (n - 1)) (2 * n)"
    and "int_truediv (n - 1 + (n - 1)) (2 * n) \<le> 1"
proof -
  have n: "(0::rat) < of_int n" using assms by simp
  have q: "(of_int (n - 1 + (n - 1)) :: rat) / of_int (2 * n) = 1 - 1 / of_int n"
    using n by (simp add: field_simps)
  have "(1::rat) / of_int n \<le> 1 / 37" using assms n by (simp add: field_simps)
  then have lo: "(3985::rat) / 4096 \<le> 1 - 1 / of_int n" by simp
  have hi: "1 - 1 / of_int n \<le> (1::rat)" using n by simp
  have d1: "is_double (3985 / 4096)" using is_double_frac[of 3985 12] by simp
  have d2: "is_double 1" using is_double_int[of 1] by simp
  have e: "int_truediv (n - 1 + (n - 1)) (2 * n) = rnd (1 - 1 / of_int n)"
    unfolding int_truediv_def q ..
  from rnd_between[OF d1 d2 lo hi]
  show "3985 / 4096 \<le> int_truediv (n - 1 + (n - 1)) (2 * n)"
    and "int_truediv (n - 1 + (n - 1)) (2 * n) \<le> 1"
    unfolding e by simp_all
qed

lemma gradient_color_last:
  assumes "37 \<le> n"
  shows "\<exists>r g b. gradient_color n color1 color2 (n - 1) (n - 1) = (r, g, b, 255) \<and>
     (r = 117 \<or> r = 118) \<and> (g = 75 \<or> g = 76) \<and> (b = 162 \<or> b = 163)"
proof -
  define ratio where "ratio = int_truediv (n - 1 + (n - 1)) (2 * n)"
  note r = last_ratio[OF assms, folded ratio_def]
  define R where "R = int_add_float 102 (int_mul_float 16 ratio)"
  define G where "G = int_add_float 126 (int_mul_float (- 51) ratio)"
  define B where "B = int_add_float 234 (int_mul_float (- 72) ratio)"
  from channel_up[OF r, of 16 102] have R: "117 \<le> R" "R \<le> 118" by (simp_all add: R_def)
  from channel_down[OF r, of 51 126] have G: "75 \<le> G" "G < 77" by (simp_all add: G_def)
  from channel_down[OF r, of 72 234] have B: "162 \<le> B" "B < 164" by (simp_all add: B_def)
  have "117 \<le> \<lfloor>R\<rfloor>" "\<lfloor>R\<rfloor> \<le> 118" using R by (simp_all add: le_floor_iff floor_le_iff)
  then have pr: "py_int R = 117 \<or> py_int R = 118" using R by (simp add: py_int_def) linarith
  have "75 \<le> \<lfloor>G\<rfloor>" "\<lfloor>G\<rfloor> < 77" using G by (simp_all add: le_floor_iff floor_less_iff)
  then have pg: "py_int G = 75 \<or> py_int G = 76" using G by (simp add: py_int_def) linarith
  have "162 \<le> \<lfloor>B\<rfloor>" "\<lfloor>B\<rfloor> < 164" using B by (simp_all add: le_floor_iff floor_less_iff)
  then have pb: "py_int B = 162 \<or> py_int B = 163" using B by (simp add: py_int_def) linarith
  have "gradient_color n color1 color2 (n - 1) (n - 1) = (py_int R, py_int G, py_int B, 255)"
    by (simp add: gradient_color_def color1_def color2_def Let_def R_def G_def B_def ratio_def)
  with pr pg pb show ?thesis by blast
qed



lemma gradient_color_36: "gradient_color 36 color1 color2 35 35 = (117, 76, 164, 255)"
  apply (simp add: gradient_color_def color1_def color2_def int_add_float_def int_mul_float_def
      int_truediv_def py_float_id)
  apply code_simp
  done

text \<open>
  Claim C7, as stated, fails at the far corner for small sides. The ratio there is
  \<open>(2 n - 2) / (2 n) = 1 - 1 / n\<close>, so the blue channel is \<open>int(162 + 72 / n)\<close>: at side 36
  the last pixel is \<open>(117, 76, 164)\<close>, two units from the end colour, and at side 1 the
  only pixel is the start colour.
\<close>

theorem gradient_end_not_reached:
  "returned_pixel (Some (create_gradient 36 color1 color2)) 35 35 = Some (Inr (117, 76, 164, 255))
   \<and> \<not> within_one (117, 76, 164, 255) color2
   \<and> returned_pixel (Some (create_gradient 1 color1 color2)) 0 0 = Some (Inr (102, 126, 234, 255))
   \<and> \<not> within_one (102, 126, 234, 255) color2"
proof -
  from create_gradient_pixels[of 36 color1 color2] obtain g where
    g: "create_gradient 36 color1 color2 = Inr g" "pixel g 35 35 = ink (gradient_color 36 color1 color2 35 35)"
    by auto
  from create_gradient_pixels[of 1 color1 color2] obtain h where
    h: "create_gradient 1 color1 color2 = Inr h" "pixel h 0 0 = ink (gradient_color 1 color1 color2 0 0)"
    by auto
  have "\<not> within_one (117, 76, 164, 255) color2" "\<not> within_one (102, 126, 234, 255) color2"
    by (simp_all add: within_one_def color2_def)
  then show ?thesis
    by (simp add: returned_pixel_def g h gradient_color_36 gradient_color_origin ink_def clip8_def)
qed

text \<open>
  Claim C7, amended. For every side \<open>n > 0\<close> pixel \<open>(0, 0)\<close> of the gradient is the start
  colour \<open>(102, 126, 234)\<close>; for every side \<open>n \<ge> 37\<close> pixel \<open>(n - 1, n - 1)\<close> is within one
  unit per channel of the end colour \<open>(118, 75, 162)\<close>.
\<close>

theorem gradient_endpoints:
  "(0 < n \<longrightarrow> (\<exists>g. create_gradient n color1 color2 = Inr g \<and> pixel g 0 0 = (102, 126, 234, 255))) \<and>
   (37 \<le> n \<longrightarrow> (\<exists>g. create_gradient n color1 color2 = Inr g \<and>
       within_one (pixel g (n - 1) (n - 1)) color2))"
proof (intro conjI impI)
  assume n: "0 < n"
  from create_gradient_pixels[of n color1 color2] n obtain g where
    "create_gradient n color1 color2 = Inr g" "pixel g 0 0 = ink (gradient_color n color1 color2 0 0)"
    by auto
  then show "\<exists>g. create_gradient n color1 color2 = Inr g \<and> pixel g 0 0 = (102, 126, 234, 255)"
    by (simp add: gradient_color_origin ink_def clip8_def)
next
  assume n: "37 \<le> n"
  from create_gradient_pixels[of n color1 color2] n obtain g where
    g: "create_gradient n color1 color2 = Inr g"
      "pixel g (n - 1) (n - 1) = ink (gradient_color n color1 color2 (n - 1) (n - 1))"
    by auto
  from gradient_color_last[OF n] obtain r gr b where
    c: "gradient_color n color1 color2 (n - 1) (n - 1) = (r, gr, b, 255)"
      "r = 117 \<or> r = 118" "gr = 75 \<or> gr = 76" "b = 162 \<or> b = 163" by blast
  have "within_one (ink (r, gr, b, 255)) color2"
    using c(2-4) by (auto simp: within_one_def ink_def clip8_def color2_def)
  then show "\<exists>g. create_gradient n color1 color2 = Inr g \<and>
       within_one (pixel g (n - 1) (n - 1)) color2"
    by (simp add: g c(1))
qed

theorem gradient_endpoints_witness:
  "(37::int) \<le> 37 \<and> (\<exists>g. create_gradient 37 color1 color2 = Inr g \<and> pixel g 0 0 = (102, 126, 234, 255))
   \<and> (\<exists>g. create_gradient 37 color1 color2 = Inr g \<and> within_one (pixel g 36 36) color2)"
  using gradient_endpoints[of 37] by simp

section \<open>File names\<close>

text \<open>Decimal strings, and so the icon file names, tell their numbers apart.\<close>

lemma digit_cases: "0 \<le> d \<Longrightarrow> d < 10 \<Longrightarrow>
   d = 0 \<or> d = 1 \<or> d = 2 \<or> d = 3 \<or> d = 4 \<or> d = 5 \<or> d = 6 \<or> d = 7 \<or> d = 8 \<or> d = (9::int)"
  by presburger

lemma digit_value: "0 \<le> d \<Longrightarrow> d < 10 \<Longrightarrow> (of_char (digit d) :: int) - 48 = d"
  using digit_cases[of d] by (auto simp: digit_def)

lemma digit_in: "0 \<le> d \<Longrightarrow> d < 10 \<Longrightarrow> digit d \<in> set ''0123456789''"
  using digit_cases[of d] by (auto simp: digit_def)

lemma digits_value_digits: "0 \<le> n \<Longrightarrow> digits_value (digits n) = n"
proof (induction n rule: digits.induct)
  case (1 n)
  show ?case
  proof (cases "n < 10")
    case True
    with 1(2) show ?thesis by (subst digits.simps) (simp add: digits_value_def digit_value)
  next
    case False
    then have ih: "digits_value (digits (n div 10)) = n div 10" using 1 by simp
    have "digits_value (digits n) = 10 * digits_value (digits (n div 10)) + (of_char (digit (n mod 10)) - 48)"
      using False by (subst digits.simps) (simp add: digits_value_def)
    also have "\<dots> = 10 * (n div 10) + n mod 10" by (simp add: ih digit_value)
    finally show ?thesis by simp
  qed
qed

lemma set_digits: "0 \<le> n \<Longrightarrow> set (digits n) \<subseteq> set ''0123456789''"
proof (induction n rule: digits.induct)
  case (1 n)
  show ?case
  proof (cases "n < 10")
    case True
    with 1(2) digit_in[of n] show ?thesis by (subst digits.simps) simp
  next
    case False
    then have "set (digits (n div 10)) \<subseteq> set ''0123456789''" using 1 by simp
    moreover have "digit (n mod 10) \<in> set ''0123456789''" by (rule digit_in) simp_all
    ultimately show ?thesis using False by (subst digits.simps) simp
  qed
qed

lemma str_int_inj: "str_int a = str_int b \<Longrightarrow> a = b"
proof -
  assume e: "str_int a = str_int b"
  have neg: False if "x < 0" "0 \<le> y" "str_int x = str_int y" for x y
  proof -
    from that have "CHR ''-'' # digits (- x) = digits y" by (simp add: str_int_def)
    then have "CHR ''-'' \<in> set (digits y)" by (metis list.set_intros(1))
    with set_digits[OF that(2)] show False by auto
  qed
  consider "a < 0" "b < 0" | "a < 0" "0 \<le> b" | "0 \<le> a" "b < 0" | "0 \<le> a" "0 \<le> b" by linarith
  then show ?thesis
  proof cases
    case 1
    with e have "digits (- a) = digits (- b)" by (simp add: str_int_def)
    then have "digits_value (digits (- a)) = digits_value (digits (- b))" by simp
    with 1 show ?thesis by (simp add: digits_value_digits)
  next
    case 2
    with neg[of a b] e show ?thesis by simp
  next
    case 3
    with neg[of b a] e show ?thesis by simp
  next
    case 4
    with e have "digits a = digits b" by (simp add: str_int_def)
    then have "digits_value (digits a) = digits_value (digits b)" by simp
    with 4 show ?thesis by (simp add: digits_value_digits)
  qed
qed

lemma no_x_in_str_int: "CHR ''x'' \<notin> set (str_int a)"
proof (cases "a < 0")
  case True
  with set_digits[of "- a"] show ?thesis by (auto simp: str_int_def)
next
  case False
  with set_digits[of a] show ?thesis by (auto simp: str_int_def)
qed

lemma icon_filename_inj: "icon_filename a = icon_filename b \<longleftrightarrow> a = b"
proof
  define u where "u n = str_int n @ ''x'' @ str_int n @ ''.png''" for n
  have tw: "takeWhile (\<lambda>c. c \<noteq> CHR ''x'') (u n) = str_int n" for n
    unfolding u_def using no_x_in_str_int[of n] by (subst takeWhile_append2) auto
  assume "icon_filename a = icon_filename b"
  then have "''icon_'' @ u a = ''icon_'' @ u b" by (simp only: icon_filename_def u_def)
  then have "u a = u b" by (simp only: same_append_eq)
  then have "takeWhile (\<lambda>c. c \<noteq> CHR ''x'') (u a) = takeWhile (\<lambda>c. c \<noteq> CHR ''x'') (u b)"
    by (rule arg_cong)
  then have "str_int a = str_int b" by (simp only: tw)
  then show "a = b" by (rule str_int_inj)
qed simp

lemma icon_filename_not_manifest: "icon_filename a \<noteq> ''Contents.json''"
  by (simp add: icon_filename_def)

section \<open>The export loop\<close>

lemma resize_size: "resize pil m a a = Inr icon \<Longrightarrow> width icon = a \<and> height icon = a"
  by (auto simp: resize_def split: if_splits)

lemma resize_ok: "1 \<le> a \<Longrightarrow> \<exists>icon. resize pil m a a = Inr icon"
  by (simp add: resize_def)

lemma export_one_Inr:
  assumes "export_one pil m spec (w, imgs) = Inr (w', imgs')"
  shows "imgs' = imgs @ [entry_of (fst spec) (snd spec)]"
    and "dir_ok w" and "dir_ok w'"
    and "\<exists>icon. resize pil m (actual_size spec) (actual_size spec) = Inr icon
           \<and> files w' = (files w)(icon_filename (actual_size spec) \<mapsto> PNG icon)"
    and "stdout w' = stdout w @ [''Created: '' @ icon_filename (actual_size spec)]"
  using assms
  by (auto simp: export_one_def Let_def bind_err_Inr_iff write_file_def print_def actual_size_def
      split: if_splits prod.splits)

lemma export_one_ok:
  assumes "dir_ok w" "resize pil m (actual_size spec) (actual_size spec) = Inr icon"
  shows "\<exists>w'. export_one pil m spec (w, imgs) = Inr (w', imgs @ [entry_of (fst spec) (snd spec)])
     \<and> dir_ok w'"
  using assms
  by (cases spec) (simp add: export_one_def Let_def write_file_def print_def actual_size_def)

lemma export_loop_Inr:
  "export_loop pil m table (w, imgs) = Inr (w', imgs') \<Longrightarrow>
     imgs' = imgs @ map (\<lambda>(b, s). entry_of b s) table \<and>
     files w' = icon_files pil m table (files w) \<and>
     stdout w' = stdout w @ map (\<lambda>spec. ''Created: '' @ icon_filename (actual_size spec)) table \<and>
     dir_ok w' = dir_ok w \<and>
     (\<forall>spec \<in> set table. \<exists>icon. resize pil m (actual_size spec) (actual_size spec) = Inr icon)"
proof (induction table arbitrary: w imgs)
  case Nil
  then show ?case by simp
next
  case (Cons spec rest)
  from Cons.prems obtain st where one: "export_one pil m spec (w, imgs) = Inr st"
    and rest: "export_loop pil m rest st = Inr (w', imgs')"
    by (auto simp: bind_err_Inr_iff)
  obtain w1 imgs1 where st: "st = (w1, imgs1)" by (cases st)
  note o = export_one_Inr[OF one[unfolded st]]
  from o(4) obtain icon where icon: "resize pil m (actual_size spec) (actual_size spec) = Inr icon"
    "files w1 = (files w)(icon_filename (actual_size spec) \<mapsto> PNG icon)" by blast
  from Cons.IH[OF rest[unfolded st]] have ih:
    "imgs' = imgs1 @ map (\<lambda>(b, s). entry_of b s) rest"
    "files w' = icon_files pil m rest (files w1)"
    "stdout w' = stdout w1 @ map (\<lambda>spec. ''Created: '' @ icon_filename (actual_size spec)) rest"
    "dir_ok w' = dir_ok w1"
    "\<forall>spec \<in> set rest. \<exists>icon. resize pil m (actual_size spec) (actual_size spec) = Inr icon"
    by blast+
  have f: "icon_files pil m (spec # rest) (files w) = icon_files pil m rest (files w1)"
    by (simp only: icon_files.simps icon sum.case)
  have "imgs' = imgs @ map (\<lambda>(b, s). entry_of b s) (spec # rest)"
    by (simp add: ih(1) o(1) case_prod_beta)
  moreover have "files w' = icon_files pil m (spec # rest) (files w)"
    by (simp only: f ih(2))
  moreover have "stdout w' = stdout w @
      map (\<lambda>spec. ''Created: '' @ icon_filename (actual_size spec)) (spec # rest)"
    by (simp add: ih(3) o(5))
  moreover have "dir_ok w' = dir_ok w" using ih(4) o(2,3) by simp
  moreover have "\<forall>s \<in> set (spec # rest). \<exists>icon. resize pil m (actual_size s) (actual_size s) = Inr icon"
    using ih(5) icon(1) by auto
  ultimately show ?case by blast
qed

lemma export_loop_ok:
  assumes "dir_ok w" and "\<forall>spec \<in> set table. 1 \<le> actual_size spec"
  shows "\<exists>w'. export_loop pil m table (w, imgs) = Inr (w', imgs @ map (\<lambda>(b, s). entry_of b s) table)"
  using assms
proof (induction table arbitrary: w imgs)
  case Nil
  then show ?case by simp
next
  case (Cons spec rest)
  from Cons.prems(2) have "1 \<le> actual_size spec" by simp
  from resize_ok[OF this, of pil m] obtain icon where
    "resize pil m (actual_size spec) (actual_size spec) = Inr icon" by blast
  from export_one_ok[OF Cons.prems(1) this, of imgs] obtain w1 where
    one: "export_one pil m spec (w, imgs) = Inr (w1, imgs @ [entry_of (fst spec) (snd spec)])"
    and ok: "dir_ok w1" by blast
  from Cons.IH[OF ok, of "imgs @ [entry_of (fst spec) (snd spec)]"] Cons.prems(2)
  obtain w' where "export_loop pil m rest (w1, imgs @ [entry_of (fst spec) (snd spec)])
      = Inr (w', (imgs @ [entry_of (fst spec) (snd spec)]) @ map (\<lambda>(b, s). entry_of b s) rest)"
    by auto
  then show ?case by (simp add: one case_prod_beta)
qed

lemma icon_files_other:
  "\<forall>spec \<in> set table. name \<noteq> icon_filename (actual_size spec) \<Longrightarrow>
     icon_files pil m table f name = f name"
  by (induction table arbitrary: f) (auto split: sum.splits)

lemma icon_files_keep:
  "resize pil m a a = Inr icon \<Longrightarrow> f (icon_filename a) = Some (PNG icon) \<Longrightarrow>
     icon_files pil m table f (icon_filename a) = Some (PNG icon)"
proof (induction table arbitrary: f)
  case Nil
  then show ?case by simp
next
  case (Cons spec rest)
  show ?case
  proof (cases "resize pil m (actual_size spec) (actual_size spec)")
    case (Inl e)
    with Cons show ?thesis by simp
  next
    case (Inr icon')
    have "(f(icon_filename (actual_size spec) \<mapsto> PNG icon')) (icon_filename a) = Some (PNG icon)"
      using Cons.prems Inr by (auto simp: icon_filename_inj)
    from Cons.IH[of "f(icon_filename (actual_size spec) \<mapsto> PNG icon')", OF Cons.prems(1) this]
    show ?thesis by (simp only: icon_files.simps Inr sum.case)
  qed
qed

lemma icon_files_written:
  "spec \<in> set table \<Longrightarrow> resize pil m (actual_size spec) (actual_size spec) = Inr icon \<Longrightarrow>
     icon_files pil m table f (icon_filename (actual_size spec)) = Some (PNG icon)"
proof (induction table arbitrary: f)
  case Nil
  then show ?case by simp
next
  case (Cons spec' rest)
  show ?case
  proof (cases "spec \<in> set rest")
    case True
    from Cons.IH[OF True Cons.prems(2)] show ?thesis by simp
  next
    case False
    with Cons.prems(1) have "spec' = spec" by simp
    then show ?thesis using Cons.prems(2) by (simp add: icon_files_keep)
  qed
qed

lemma icon_files_indep:
  "icon_files pil m table f name = icon_files pil m table g name \<or>
   (icon_files pil m table f name = f name \<and> icon_files pil m table g name = g name)"
proof (induction table arbitrary: f g)
  case Nil
  then show ?case by simp
next
  case (Cons spec rest)
  show ?case
  proof (cases "resize pil m (actual_size spec) (actual_size spec)")
    case (Inl e)
    with Cons[of f g] show ?thesis by simp
  next
    case (Inr icon)
    let ?n = "icon_filename (actual_size spec)"
    let ?f = "f(?n \<mapsto> PNG icon)" and ?g = "g(?n \<mapsto> PNG icon)"
    have sf: "icon_files pil m (spec # rest) f = icon_files pil m rest ?f"
      and sg: "icon_files pil m (spec # rest) g = icon_files pil m rest ?g"
      by (simp_all only: icon_files.simps Inr sum.case)
    from Cons[of ?f ?g] consider
      "icon_files pil m rest ?f name = icon_files pil m rest ?g name" |
      "icon_files pil m rest ?f name = ?f name" "icon_files pil m rest ?g name = ?g name"
      by blast
    then show ?thesis
    proof cases
      case 1
      then show ?thesis by (simp only: sf sg) simp
    next
      case 2
      show ?thesis
      proof (cases "name = ?n")
        case True
        then have "?f name = ?g name" by simp
        with 2 show ?thesis by (simp only: sf sg) simp
      next
        case False
        then have "?f name = f name" "?g name = g name" by simp_all
        with 2 show ?thesis by (simp only: sf sg) simp
      qed
    qed
  qed
qed

lemma pipeline_Inr:
  assumes "pipeline pil table w = Some (Inr r)"
  shows "\<exists>w'. create_icon pil 1024 = Some (Inr (run_master r)) \<and>
     export_loop pil (run_master r) table (w, []) = Inr (w', images (run_contents r)) \<and>
     info (run_contents r) = \<lparr>author = ''xcode'', version = 1\<rparr> \<and>
     dir_ok w' \<and> dir_ok (run_env r) \<and>
     files (run_env r) = (files w')(''Contents.json'' \<mapsto> JSON (run_contents r)) \<and>
     stdout (run_env r) = stdout w' @ [''Created: Contents.json'']"
proof -
  from assms obtain m where m: "create_icon pil 1024 = Some (Inr m)"
    by (auto simp: pipeline_def split: option.splits sum.splits)
  with assms obtain st where st: "export_loop pil m table (w, []) = Inr st"
    by (auto simp: pipeline_def bind_err_Inr_iff)
  obtain w' imgs where s: "st = (w', imgs)" by (cases st)
  from assms m st s show ?thesis
    by (auto simp: pipeline_def Let_def bind_err_Inr_iff write_file_def print_def split: if_splits)
qed

lemma pipeline_ok:
  assumes "dir_ok w" and "\<forall>spec \<in> set table. 1 \<le> actual_size spec"
  shows "\<exists>r. pipeline pil table w = Some (Inr r)"
proof -
  from create_icon_returns[of 1024 pil] obtain m where m: "create_icon pil 1024 = Some (Inr m)"
    by auto
  from export_loop_ok[OF assms, of pil m "[]"] obtain w' where
    l: "export_loop pil m table (w, []) = Inr (w', map (\<lambda>(b, s). entry_of b s) table)" by auto
  from export_loop_Inr[OF l] assms(1) have "dir_ok w'" by simp
  then show ?thesis by (simp add: pipeline_def m l Let_def write_file_def)
qed

lemma sizes_actual:
  "map actual_size sizes = [20, 40, 60, 29, 58, 87, 40, 80, 120, 120, 180, 76, 152, 167, 1024]"
  by code_simp

lemma sizes_rounded: "map rounded_size sizes = map actual_size sizes"
  by code_simp

lemma sizes_positive: "\<forall>spec \<in> set sizes. 1 \<le> actual_size spec"
proof -
  have "\<forall>a \<in> set (map actual_size sizes). 1 \<le> a" unfolding sizes_actual by simp
  then show ?thesis by simp
qed

lemma main_ok: "dir_ok w \<Longrightarrow> \<exists>r. main pil w = Some (Inr r)"
  by (simp add: main_def pipeline_ok sizes_positive)

section \<open>The run on the reference table\<close>

lemma sizes_entries: "map (\<lambda>(b, s). entry_of b s) sizes =
  [\<lparr>filename = ''icon_20x20.png'', idiom = ''iphone'', scale = ''1x'', size' = ''20x20''\<rparr>,
   \<lparr>filename = ''icon_40x40.png'', idiom = ''iphone'', scale = ''2x'', size' = ''20x20''\<rparr>,
   \<lparr>filename = ''icon_60x60.png'', idiom = ''iphone'', scale = ''3x'', size' = ''20x20''\<rparr>,
   \<lparr>filename = ''icon_29x29.png'', idiom = ''iphone'', scale = ''1x'', size' = ''29x29''\<rparr>,
   \<lparr>filename = ''icon_58x58.png'', idiom = ''iphone'', scale = ''2x'', size' = ''29x29''\<rparr>,
   \<lparr>filename = ''icon_87x87.png'', idiom = ''iphone'', scale = ''3x'', size' = ''29x29''\<rparr>,
   \<lparr>filename = ''icon_40x40.png'', idiom = ''iphone'', scale = ''1x'', size' = ''40x40''\<rparr>,
   \<lparr>filename = ''icon_80x80.png'', idiom = ''iphone'', scale = ''2x'', size' = ''40x40''\<rparr>,
   \<lparr>filename = ''icon_120x120.png'', idiom = ''iphone'', scale = ''3x'', size' = ''40x40''\<rparr>,
   \<lparr>filename = ''icon_120x120.png'', idiom = ''iphone'', scale = ''2x'', size' = ''60x60''\<rparr>,
   \<lparr>filename = ''icon_180x180.png'', idiom = ''iphone'', scale = ''3x'', size' = ''60x60''\<rparr>,
   \<lparr>filename = ''icon_76x76.png'', idiom = ''ipad'', scale = ''1x'', size' = ''76x76''\<rparr>,
   \<lparr>filename = ''icon_152x152.png'', idiom = ''ipad'', scale = ''2x'', size' = ''76x76''\<rparr>,
   \<lparr>filename = ''icon_167x167.png'', idiom = ''ipad'', scale = ''2x'', size' = ''83.5x83.5''\<rparr>,
   \<lparr>filename = ''icon_1024x1024.png'', idiom = ''ios-marketing'', scale = ''1x'', size' = ''1024x1024''\<rparr>]"
  by code_simp

lemma main_contents:
  assumes "main pil w = Some (Inr r)"
  shows "images (run_contents r) = map (\<lambda>(b, s). entry_of b s) sizes"
    and "info (run_contents r) = \<lparr>author = ''xcode'', version = 1\<rparr>"
proof -
  from pipeline_Inr[OF assms[unfolded main_def]] obtain w' where
    l: "export_loop pil (run_master r) sizes (w, []) = Inr (w', images (run_contents r))"
    and i: "info (run_contents r) = \<lparr>author = ''xcode'', version = 1\<rparr>" by blast
  from export_loop_Inr[OF l] show "images (run_contents r) = map (\<lambda>(b, s). entry_of b s) sizes"
    by simp
  show "info (run_contents r) = \<lparr>author = ''xcode'', version = 1\<rparr>" by (rule i)
qed

text \<open>
  Claim C3. In a writable directory \<^verbatim>\<open>main\<close> returns, and the manifest it writes to
  \<^verbatim>\<open>Contents.json\<close> has one entry per Size Spec, 15 of them, in the order of the size
  table, each with that spec's file name, idiom, scale string and size string, and the
  info record \<open>author = xcode\<close>, \<open>version = 1\<close>.
\<close>

theorem manifest_of_reference_table:
  "dir_ok w \<longrightarrow> (\<exists>r. main pil w = Some (Inr r) \<and>
     run_contents r =
       \<lparr>images =
         [\<lparr>filename = ''icon_20x20.png'', idiom = ''iphone'', scale = ''1x'', size' = ''20x20''\<rparr>,
          \<lparr>filename = ''icon_40x40.png'', idiom = ''iphone'', scale = ''2x'', size' = ''20x20''\<rparr>,
          \<lparr>filename = ''icon_60x60.png'', idiom = ''iphone'', scale = ''3x'', size' = ''20x20''\<rparr>,
          \<lparr>filename = ''icon_29x29.png'', idiom = ''iphone'', scale = ''1x'', size' = ''29x29''\<rparr>,
          \<lparr>filename = ''icon_58x58.png'', idiom = ''iphone'', scale = ''2x'', size' = ''29x29''\<rparr>,
          \<lparr>filename = ''icon_87x87.png'', idiom = ''iphone'', scale = ''3x'', size' = ''29x29''\<rparr>,
          \<lparr>filename = ''icon_40x40.png'', idiom = ''iphone'', scale = ''1x'', size' = ''40x40''\<rparr>,
          \<lparr>filename = ''icon_80x80.png'', idiom = ''iphone'', scale = ''2x'', size' = ''40x40''\<rparr>,
          \<lparr>filename = ''icon_120x120.png'', idiom = ''iphone'', scale = ''3x'', size' = ''40x40''\<rparr>,
          \<lparr>filename = ''icon_120x120.png'', idiom = ''iphone'', scale = ''2x'', size' = ''60x60''\<rparr>,
          \<lparr>filename = ''icon_180x180.png'', idiom = ''iphone'', scale = ''3x'', size' = ''60x60''\<rparr>,
          \<lparr>filename = ''icon_76x76.png'', idiom = ''ipad'', scale = ''1x'', size' = ''76x76''\<rparr>,
          \<lparr>filename = ''icon_152x152.png'', idiom = ''ipad'', scale = ''2x'', size' = ''76x76''\<rparr>,
          \<lparr>filename = ''icon_167x167.png'', idiom = ''ipad'', scale = ''2x'', size' = ''83.5x83.5''\<rparr>,
          \<lparr>filename = ''icon_1024x1024.png'', idiom = ''ios-marketing'', scale = ''1x'',
             size' = ''1024x1024''\<rparr>],
        info = \<lparr>author = ''xcode'', version = 1\<rparr>\<rparr> \<and>
     images (run_contents r) = map (\<lambda>(b, s). entry_of b s) sizes \<and>
     length (images (run_contents r)) = 15 \<and> length sizes = 15 \<and>
     files (run_env r) ''Contents.json'' = Some (JSON (run_contents r)))"
proof
  assume "dir_ok w"
  from main_ok[OF this, of pil] obtain r where r: "main pil w = Some (Inr r)" by blast
  note c = main_contents[OF r]
  from pipeline_Inr[OF r[unfolded main_def]] have
    f: "files (run_env r) ''Contents.json'' = Some (JSON (run_contents r))" by auto
  have "run_contents r = \<lparr>images = images (run_contents r), info = info (run_contents r)\<rparr>"
    by simp
  then have "run_contents r = \<lparr>images = map (\<lambda>(b, s). entry_of b s) sizes,
      info = \<lparr>author = ''xcode'', version = 1\<rparr>\<rparr>" by (simp only: c)
  moreover have "length sizes = 15" by (simp add: sizes_def)
  ultimately show "\<exists>r. main pil w = Some (Inr r) \<and>
     run_contents r =
       \<lparr>images =
         [\<lparr>filename = ''icon_20x20.png'', idiom = ''iphone'', scale = ''1x'', size' = ''20x20''\<rparr>,
          \<lparr>filename = ''icon_40x40.png'', idiom = ''iphone'', scale = ''2x'', size' = ''20x20''\<rparr>,
          \<lparr>filename = ''icon_60x60.png'', idiom = ''iphone'', scale = ''3x'', size' = ''20x20''\<rparr>,
          \<lparr>filename = ''icon_29x29.png'', idiom = ''iphone'', scale = ''1x'', size' = ''29x29''\<rparr>,
          \<lparr>filename = ''icon_58x58.png'', idiom = ''iphone'', scale = ''2x'', size' = ''29x29''\<rparr>,
          \<lparr>filename = ''icon_87x87.png'', idiom = ''iphone'', scale = ''3x'', size' = ''29x29''\<rparr>,
          \<lparr>filename = ''icon_40x40.png'', idiom = ''iphone'', scale = ''1x'', size' = ''40x40''\<rparr>,
          \<lparr>filename = ''icon_80x80.png'', idiom = ''iphone'', scale = ''2x'', size' = ''40x40''\<rparr>,
          \<lparr>filename = ''icon_120x120.png'', idiom = ''iphone'', scale = ''3x'', size' = ''40x40''\<rparr>,
          \<lparr>filename = ''icon_120x120.png'', idiom = ''iphone'', scale = ''2x'', size' = ''60x60''\<rparr>,
          \<lparr>filename = ''icon_180x180.png'', idiom = ''iphone'', scale = ''3x'', size' = ''60x60''\<rparr>,
          \<lparr>filename = ''icon_76x76.png'', idiom = ''ipad'', scale = ''1x'', size' = ''76x76''\<rparr>,
          \<lparr>filename = ''icon_152x152.png'', idiom = ''ipad'', scale = ''2x'', size' = ''76x76''\<rparr>,
          \<lparr>filename = ''icon_167x167.png'', idiom = ''ipad'', scale = ''2x'', size' = ''83.5x83.5''\<rparr>,
          \<lparr>filename = ''icon_1024x1024.png'', idiom = ''ios-marketing'', scale = ''1x'',
             size' = ''1024x1024''\<rparr>],
        info = \<lparr>author = ''xcode'', version = 1\<rparr>\<rparr> \<and>
     images (run_contents r) = map (\<lambda>(b, s). entry_of b s) sizes \<and>
     length (images (run_contents r)) = 15 \<and> length sizes = 15 \<and>
     files (run_env r) ''Contents.json'' = Some (JSON (run_contents r))"
    using r c(1) f by (intro exI[of _ r]) (simp add: sizes_entries)
qed

theorem manifest_of_reference_table_witness:
  "dir_ok empty_dir \<and> (\<exists>r. main coarse_pillow empty_dir = Some (Inr r) \<and>
     images (run_contents r) = map (\<lambda>(b, s). entry_of b s) sizes \<and>
     length (images (run_contents r)) = 15 \<and>
     files (run_env r) ''Contents.json'' = Some (JSON (run_contents r)))"
proof -
  have d: "dir_ok empty_dir" by (simp add: empty_dir_def)
  from manifest_of_reference_table[of empty_dir coarse_pillow] d
  show ?thesis by blast
qed

lemma sizes_filenames:
  "map (\<lambda>(b, s). filename (entry_of b s)) sizes =
     [''icon_20x20.png'', ''icon_40x40.png'', ''icon_60x60.png'', ''icon_29x29.png'',
      ''icon_58x58.png'', ''icon_87x87.png'', ''icon_40x40.png'', ''icon_80x80.png'',
      ''icon_120x120.png'', ''icon_120x120.png'', ''icon_180x180.png'', ''icon_76x76.png'',
      ''icon_152x152.png'', ''icon_167x167.png'', ''icon_1024x1024.png'']"
proof -
  have "map (\<lambda>(b, s). filename (entry_of b s)) sizes = map filename (map (\<lambda>(b, s). entry_of b s) sizes)"
    by (simp add: case_prod_beta)
  then show ?thesis unfolding sizes_entries by simp
qed

text \<open>
  Claim C5, as stated, fails. The specs \<open>(20, 2)\<close> and \<open>(40, 1)\<close> of the size table both
  have the pixel size 40 and so the file name \<^verbatim>\<open>icon_40x40.png\<close> (as \<open>(40, 3)\<close> and
  \<open>(60, 2)\<close> share \<^verbatim>\<open>icon_120x120.png\<close>): the file names of the table are not pairwise
  different.
\<close>

theorem filenames_collide:
  "sizes ! 1 = (PyInt 20, 2) \<and> sizes ! 6 = (PyInt 40, 1)
   \<and> filename (entry_of (PyInt 20) 2) = ''icon_40x40.png''
   \<and> filename (entry_of (PyInt 40) 1) = ''icon_40x40.png''
   \<and> \<not> distinct (map (\<lambda>(b, s). filename (entry_of b s)) sizes)"
proof -
  have "\<not> distinct (map (\<lambda>(b, s). filename (entry_of b s)) sizes)"
    unfolding sizes_filenames by simp
  moreover have "filename (entry_of (PyInt 20) 2) = ''icon_40x40.png''"
    "filename (entry_of (PyInt 40) 1) = ''icon_40x40.png''" by code_simp+
  moreover have "sizes ! 1 = (PyInt 20, 2)" "sizes ! 6 = (PyInt 40, 1)"
    by (simp_all add: sizes_def)
  ultimately show ?thesis by simp
qed

text \<open>
  Claim C5, amended. A file name is \<^verbatim>\<open>icon_{W}x{W}.png\<close> for the pixel size \<open>W\<close> of its
  spec, and two specs have the same file name exactly when they have the same pixel
  size. The size table gives these 15 names, 13 of them different.
\<close>

theorem filenames_follow_actual_size:
  "(filename (entry_of b s) = filename (entry_of b' s') \<longleftrightarrow> actual_size (b, s) = actual_size (b', s'))
   \<and> filename (entry_of b s) =
       ''icon_'' @ str_int (actual_size (b, s)) @ ''x'' @ str_int (actual_size (b, s)) @ ''.png''
   \<and> map (\<lambda>(b, s). filename (entry_of b s)) sizes =
     [''icon_20x20.png'', ''icon_40x40.png'', ''icon_60x60.png'', ''icon_29x29.png'',
      ''icon_58x58.png'', ''icon_87x87.png'', ''icon_40x40.png'', ''icon_80x80.png'',
      ''icon_120x120.png'', ''icon_120x120.png'', ''icon_180x180.png'', ''icon_76x76.png'',
      ''icon_152x152.png'', ''icon_167x167.png'', ''icon_1024x1024.png'']
   \<and> length (remdups (map (\<lambda>(b, s). filename (entry_of b s)) sizes)) = 13"
proof -
  have "length (remdups (map (\<lambda>(b, s). filename (entry_of b s)) sizes)) = 13"
    unfolding sizes_filenames by simp
  moreover have "filename (entry_of b s) = filename (entry_of b' s') \<longleftrightarrow>
      actual_size (b, s) = actual_size (b', s')"
    by (simp add: entry_of_def actual_size_def icon_filename_inj)
  moreover have "filename (entry_of b s) =
       ''icon_'' @ str_int (actual_size (b, s)) @ ''x'' @ str_int (actual_size (b, s)) @ ''.png''"
    by (simp add: entry_of_def actual_size_def icon_filename_def)
  ultimately show ?thesis using sizes_filenames by blast
qed

lemma idiom_entry: "idiom (entry_of b s) = idiom_rule b"
  by (simp add: entry_of_def idiom_of_def idiom_rule_def)

text \<open>
  Claim C6. The idiom of every manifest entry of a run follows from the logical size of
  its spec alone: 1024 gives \<^verbatim>\<open>ios-marketing\<close> before any other rule, 20, 29, 40 and 60
  give \<^verbatim>\<open>iphone\<close>, every other size gives \<^verbatim>\<open>ipad\<close>. So 20 is the phone, 76 the tablet
  and 1024 the store listing.
\<close>

theorem idiom_from_logical_size:
  "(pipeline pil table w = Some (Inr r) \<longrightarrow>
      map idiom (images (run_contents r)) = map (\<lambda>(logical, s). idiom_rule logical) table)
   \<and> idiom_rule (PyInt 20) = ''iphone'' \<and> idiom_rule (PyInt 29) = ''iphone''
   \<and> idiom_rule (PyInt 40) = ''iphone'' \<and> idiom_rule (PyInt 60) = ''iphone''
   \<and> idiom_rule (PyInt 76) = ''ipad'' \<and> idiom_rule (PyInt 1024) = ''ios-marketing''
   \<and> idiom (entry_of logical s) = idiom_rule logical"
proof (intro conjI impI)
  assume "pipeline pil table w = Some (Inr r)"
  from pipeline_Inr[OF this] obtain w' where
    "export_loop pil (run_master r) table (w, []) = Inr (w', images (run_contents r))" by blast
  from export_loop_Inr[OF this] have "images (run_contents r) = map (\<lambda>(b, s). entry_of b s) table"
    by simp
  then show "map idiom (images (run_contents r)) = map (\<lambda>(logical, s). idiom_rule logical) table"
    by (simp add: case_prod_beta idiom_entry)
qed (simp_all add: idiom_rule_def idiom_entry)

theorem idiom_from_logical_size_witness:
  "\<exists>r. pipeline coarse_pillow sizes empty_dir = Some (Inr r) \<and>
     map idiom (images (run_contents r)) =
       [''iphone'', ''iphone'', ''iphone'', ''iphone'', ''iphone'', ''iphone'', ''iphone'',
        ''iphone'', ''iphone'', ''iphone'', ''iphone'', ''ipad'', ''ipad'', ''ipad'',
        ''ios-marketing'']"
proof -
  have "dir_ok empty_dir" by (simp add: empty_dir_def)
  from main_ok[OF this, of coarse_pillow] obtain r where
    r: "pipeline coarse_pillow sizes empty_dir = Some (Inr r)" by (auto simp: main_def)
  have "map (\<lambda>(logical, s). idiom_rule logical) sizes =
       [''iphone'', ''iphone'', ''iphone'', ''iphone'', ''iphone'', ''iphone'', ''iphone'',
        ''iphone'', ''iphone'', ''iphone'', ''iphone'', ''ipad'', ''ipad'', ''ipad'',
        ''ios-marketing'']" by code_simp
  with idiom_from_logical_size[of coarse_pillow sizes empty_dir r] r show ?thesis by auto
qed

lemma pipeline_master:
  assumes "pipeline pil table w = Some (Inr r)"
  shows "create_icon pil 1024 = Some (Inr (run_master r))"
    and "width (run_master r) = 1024" and "height (run_master r) = 1024"
proof -
  from pipeline_Inr[OF assms] show m: "create_icon pil 1024 = Some (Inr (run_master r))" by blast
  from create_icon_returns[of 1024 pil] m have "canvas_ok 1024 (run_master r)" by auto
  then show "width (run_master r) = 1024" "height (run_master r) = 1024"
    by (simp_all add: canvas_ok_def)
qed

lemma pipeline_files:
  assumes "pipeline pil table w = Some (Inr r)"
  shows "files (run_env r) =
     (icon_files pil (run_master r) table (files w))(''Contents.json'' \<mapsto> JSON (run_contents r))"
    and "\<forall>spec \<in> set table. \<exists>icon.
       resize pil (run_master r) (actual_size spec) (actual_size spec) = Inr icon"
    and "stdout (run_env r) = stdout w @
       map (\<lambda>spec. ''Created: '' @ icon_filename (actual_size spec)) table @ [''Created: Contents.json'']"
proof -
  from pipeline_Inr[OF assms] obtain w' where
    l: "export_loop pil (run_master r) table (w, []) = Inr (w', images (run_contents r))"
    and f: "files (run_env r) = (files w')(''Contents.json'' \<mapsto> JSON (run_contents r))"
    and s: "stdout (run_env r) = stdout w' @ [''Created: Contents.json'']" by blast
  note e = export_loop_Inr[OF l]
  from e have fw: "files w' = icon_files pil (run_master r) table (files w)" by blast
  show "files (run_env r) =
     (icon_files pil (run_master r) table (files w))(''Contents.json'' \<mapsto> JSON (run_contents r))"
    by (simp only: f fw)
  from e show "\<forall>spec \<in> set table. \<exists>icon.
       resize pil (run_master r) (actual_size spec) (actual_size spec) = Inr icon" by blast
  from e s show "stdout (run_env r) = stdout w @
       map (\<lambda>spec. ''Created: '' @ icon_filename (actual_size spec)) table @ [''Created: Contents.json'']"
    by simp
qed

lemma pipeline_icon:
  assumes "pipeline pil table w = Some (Inr r)" "spec \<in> set table"
  shows "\<exists>icon. resize pil (run_master r) (actual_size spec) (actual_size spec) = Inr icon \<and>
     files (run_env r) (icon_filename (actual_size spec)) = Some (PNG icon) \<and>
     width icon = actual_size spec \<and> height icon = actual_size spec"
proof -
  note p = pipeline_files[OF assms(1)]
  from p(2) assms(2) obtain icon where
    i: "resize pil (run_master r) (actual_size spec) (actual_size spec) = Inr icon" by blast
  from icon_files_written[OF assms(2) i]
  have "icon_files pil (run_master r) table (files w) (icon_filename (actual_size spec)) = Some (PNG icon)" .
  then have "files (run_env r) (icon_filename (actual_size spec)) = Some (PNG icon)"
    unfolding p(1) using icon_filename_not_manifest[of "actual_size spec"] by simp
  with i resize_size[OF i] show ?thesis by blast
qed

text \<open>
  Claim C4, as stated, fails. \<^verbatim>\<open>main\<close> calls \<^verbatim>\<open>create_icon(1024)\<close>: the side is a
  constant, not computed from the table. Run on the table \<open>[(2048, 1)]\<close>, whose largest
  pixel size is 2048, the master canvas still has side 1024.
\<close>

theorem master_side_is_hardcoded:
  "master_side (pipeline coarse_pillow [(PyInt 2048, 1)] empty_dir) = Some (Inr 1024)
   \<and> max_actual_size [(PyInt 2048, 1)] = 2048"
proof -
  have "dir_ok empty_dir" by (simp add: empty_dir_def)
  moreover have "\<forall>spec \<in> set [(PyInt 2048, 1)]. 1 \<le> actual_size spec"
    by (simp add: actual_size_def)
  ultimately obtain r where
    r: "pipeline coarse_pillow [(PyInt 2048, 1)] empty_dir = Some (Inr r)"
    using pipeline_ok[of empty_dir "[(PyInt 2048, 1)]" coarse_pillow] by blast
  from pipeline_master(2)[OF r] have "master_side (Some (Inr r)) = Some (Inr 1024)"
    by (simp add: master_side_def)
  moreover have "max_actual_size [(PyInt 2048, 1)] = 2048"
    by (simp add: max_actual_size_def rounded_size_def)
  ultimately show ?thesis by (simp add: r)
qed

text \<open>
  Claim C4, amended. A run renders one master canvas, \<^verbatim>\<open>create_icon(1024)\<close>, of side
  1024 whatever the table, and every icon it writes is that master resized. 1024 is the
  largest pixel size of the reference table.
\<close>

theorem master_rendered_at_1024:
  "(pipeline pil table w = Some (Inr r) \<longrightarrow>
      create_icon pil 1024 = Some (Inr (run_master r)) \<and>
      width (run_master r) = 1024 \<and> height (run_master r) = 1024 \<and>
      (\<forall>spec \<in> set table. \<exists>icon.
         resize pil (run_master r) (actual_size spec) (actual_size spec) = Inr icon \<and>
         files (run_env r) (icon_filename (actual_size spec)) = Some (PNG icon)))
   \<and> max_actual_size sizes = 1024"
proof (intro conjI impI ballI)
  show "max_actual_size sizes = 1024"
    unfolding max_actual_size_def sizes_rounded sizes_actual by simp
next
  fix spec
  assume "pipeline pil table w = Some (Inr r)" "spec \<in> set table"
  from pipeline_icon[OF this] show "\<exists>icon.
         resize pil (run_master r) (actual_size spec) (actual_size spec) = Inr icon \<and>
         files (run_env r) (icon_filename (actual_size spec)) = Some (PNG icon)" by blast
qed (simp_all add: pipeline_master)

theorem master_rendered_at_1024_witness:
  "\<exists>r. pipeline coarse_pillow sizes empty_dir = Some (Inr r) \<and>
      create_icon coarse_pillow 1024 = Some (Inr (run_master r)) \<and>
      width (run_master r) = 1024 \<and> height (run_master r) = 1024 \<and>
      (\<exists>icon. resize coarse_pillow (run_master r) 167 167 = Inr icon \<and>
         files (run_env r) ''icon_167x167.png'' = Some (PNG icon))"
proof -
  have "dir_ok empty_dir" by (simp add: empty_dir_def)
  from main_ok[OF this, of coarse_pillow] obtain r where
    r: "pipeline coarse_pillow sizes empty_dir = Some (Inr r)" by (auto simp: main_def)
  have "(PyFloat (float_lit 835 10), 2) \<in> set sizes" by (simp add: sizes_def)
  moreover have "actual_size (PyFloat (float_lit 835 10), 2) = 167" by code_simp
  moreover have "icon_filename 167 = ''icon_167x167.png''" by code_simp
  ultimately show ?thesis
    using master_rendered_at_1024[of coarse_pillow sizes empty_dir r] r
    by (intro exI[of _ r]) force
qed

lemma sizes_rounded_eq: "spec \<in> set sizes \<Longrightarrow> rounded_size spec = actual_size spec"
  using sizes_rounded by (simp add: map_eq_conv)

text \<open>
  Claim C1. In a writable directory \<^verbatim>\<open>main\<close> returns, and for every Size Spec of the
  size table the directory then holds, under the name \<^verbatim>\<open>icon_{W}x{W}.png\<close> with
  \<open>W = round(logical * scale)\<close>, the master resized to \<open>W \<times> W\<close> pixels. The console
  shows one \<^verbatim>\<open>Created:\<close> line per spec, in table order, and no other entry of the
  directory but \<^verbatim>\<open>Contents.json\<close> changes.
\<close>

theorem icons_of_reference_table:
  "dir_ok w \<longrightarrow> (\<exists>r. main pil w = Some (Inr r) \<and>
     (\<forall>spec \<in> set sizes. \<exists>icon.
         files (run_env r) (icon_filename (rounded_size spec)) = Some (PNG icon) \<and>
         width icon = rounded_size spec \<and> height icon = rounded_size spec \<and>
         resize pil (run_master r) (rounded_size spec) (rounded_size spec) = Inr icon) \<and>
     stdout (run_env r) = stdout w @
       map (\<lambda>spec. ''Created: '' @ icon_filename (rounded_size spec)) sizes @
       [''Created: Contents.json''] \<and>
     (\<forall>name. name \<noteq> ''Contents.json'' \<and> (\<forall>spec \<in> set sizes. name \<noteq> icon_filename (rounded_size spec))
        \<longrightarrow> files (run_env r) name = files w name))"
proof
  assume "dir_ok w"
  from main_ok[OF this, of pil] obtain r where r: "main pil w = Some (Inr r)" by blast
  then have p: "pipeline pil sizes w = Some (Inr r)" by (simp add: main_def)
  note f = pipeline_files[OF p]
  have 1: "\<forall>spec \<in> set sizes. \<exists>icon.
         files (run_env r) (icon_filename (rounded_size spec)) = Some (PNG icon) \<and>
         width icon = rounded_size spec \<and> height icon = rounded_size spec \<and>
         resize pil (run_master r) (rounded_size spec) (rounded_size spec) = Inr icon"
  proof
    fix spec
    assume s: "spec \<in> set sizes"
    from pipeline_icon[OF p s] show "\<exists>icon.
         files (run_env r) (icon_filename (rounded_size spec)) = Some (PNG icon) \<and>
         width icon = rounded_size spec \<and> height icon = rounded_size spec \<and>
         resize pil (run_master r) (rounded_size spec) (rounded_size spec) = Inr icon"
      unfolding sizes_rounded_eq[OF s] by blast
  qed
  have "map (\<lambda>spec. ''Created: '' @ icon_filename (rounded_size spec)) sizes =
      map (\<lambda>spec. ''Created: '' @ icon_filename (actual_size spec)) sizes"
    by (simp add: sizes_rounded_eq)
  then have 2: "stdout (run_env r) = stdout w @
       map (\<lambda>spec. ''Created: '' @ icon_filename (rounded_size spec)) sizes @
       [''Created: Contents.json'']" by (simp only: f(3))
  have 3: "files (run_env r) name = files w name"
    if "name \<noteq> ''Contents.json'' \<and> (\<forall>spec \<in> set sizes. name \<noteq> icon_filename (rounded_size spec))"
    for name
  proof -
    from that have "\<forall>spec \<in> set sizes. name \<noteq> icon_filename (actual_size spec)"
      by (simp add: sizes_rounded_eq)
    from icon_files_other[OF this] that show ?thesis unfolding f(1) by simp
  qed
  from r 1 2 3 show "\<exists>r. main pil w = Some (Inr r) \<and>
     (\<forall>spec \<in> set sizes. \<exists>icon.
         files (run_env r) (icon_filename (rounded_size spec)) = Some (PNG icon) \<and>
         width icon = rounded_size spec \<and> height icon = rounded_size spec \<and>
         resize pil (run_master r) (rounded_size spec) (rounded_size spec) = Inr icon) \<and>
     stdout (run_env r) = stdout w @
       map (\<lambda>spec. ''Created: '' @ icon_filename (rounded_size spec)) sizes @
       [''Created: Contents.json''] \<and>
     (\<forall>name. name \<noteq> ''Contents.json'' \<and> (\<forall>spec \<in> set sizes. name \<noteq> icon_filename (rounded_size spec))
        \<longrightarrow> files (run_env r) name = files w name)"
    by blast
qed

theorem icons_of_reference_table_witness:
  "dir_ok empty_dir \<and> (\<exists>r. main coarse_pillow empty_dir = Some (Inr r) \<and>
     (\<exists>icon. files (run_env r) ''icon_167x167.png'' = Some (PNG icon) \<and>
         width icon = 167 \<and> height icon = 167) \<and>
     length (stdout (run_env r)) = 16)"
proof -
  have d: "dir_ok empty_dir" by (simp add: empty_dir_def)
  from icons_of_reference_table[of empty_dir coarse_pillow] d obtain r where
    r: "main coarse_pillow empty_dir = Some (Inr r)"
    and i: "\<forall>spec \<in> set sizes. \<exists>icon.
         files (run_env r) (icon_filename (rounded_size spec)) = Some (PNG icon) \<and>
         width icon = rounded_size spec \<and> height icon = rounded_size spec \<and>
         resize coarse_pillow (run_master r) (rounded_size spec) (rounded_size spec) = Inr icon"
    and s: "stdout (run_env r) = stdout empty_dir @
       map (\<lambda>spec. ''Created: '' @ icon_filename (rounded_size spec)) sizes @
       [''Created: Contents.json'']"
    by blast
  have m: "(PyFloat (float_lit 835 10), 2) \<in> set sizes" by (simp add: sizes_def)
  have a: "rounded_size (PyFloat (float_lit 835 10), 2) = 167" by code_simp
  have n: "icon_filename 167 = ''icon_167x167.png''" by code_simp
  from i m have "\<exists>icon. files (run_env r) ''icon_167x167.png'' = Some (PNG icon) \<and>
         width icon = 167 \<and> height icon = 167"
    by (force simp: a n dest: bspec[where x = "(PyFloat (float_lit 835 10), 2)"])
  moreover have "length (stdout (run_env r)) = 16"
    unfolding s by (simp add: empty_dir_def sizes_def)
  ultimately show ?thesis using d r by blast
qed

text \<open>
  Claim C9. Two runs of \<^verbatim>\<open>main\<close>, from whatever the directory and the console held
  before, render the same master, build the same manifest and leave the same
  \<^verbatim>\<open>Contents.json\<close> and the same icon under every icon name; an entry of the
  directory is the same after both runs or untouched by both. A second run over the
  result of the first returns and leaves every entry as it was.
\<close>

theorem pipeline_deterministic:
  "(main pil w1 = Some (Inr r1) \<and> main pil w2 = Some (Inr r2) \<longrightarrow>
      run_master r1 = run_master r2 \<and> run_contents r1 = run_contents r2 \<and>
      files (run_env r1) ''Contents.json'' = files (run_env r2) ''Contents.json'' \<and>
      (\<forall>spec \<in> set sizes. files (run_env r1) (icon_filename (actual_size spec)) =
                            files (run_env r2) (icon_filename (actual_size spec))) \<and>
      (\<forall>name. files (run_env r1) name = files (run_env r2) name \<or>
               (files (run_env r1) name = files w1 name \<and> files (run_env r2) name = files w2 name)))
   \<and> (main pil w1 = Some (Inr r1) \<longrightarrow>
        (\<exists>r. main pil (run_env r1) = Some (Inr r) \<and> files (run_env r) = files (run_env r1) \<and>
             run_contents r = run_contents r1 \<and> run_master r = run_master r1))"
proof (intro conjI impI)
  assume a: "main pil w1 = Some (Inr r1) \<and> main pil w2 = Some (Inr r2)"
  then have p1: "pipeline pil sizes w1 = Some (Inr r1)" and p2: "pipeline pil sizes w2 = Some (Inr r2)"
    by (simp_all add: main_def)
  from pipeline_master(1)[OF p1] pipeline_master(1)[OF p2]
  show m: "run_master r1 = run_master r2" by simp
  from a main_contents[of pil w1 r1] main_contents[of pil w2 r2]
  have "images (run_contents r1) = images (run_contents r2)"
    "info (run_contents r1) = info (run_contents r2)" by simp_all
  then show c: "run_contents r1 = run_contents r2" by (rule manifest.equality) simp
  note f1 = pipeline_files(1)[OF p1] and f2 = pipeline_files(1)[OF p2]
  show "files (run_env r1) ''Contents.json'' = files (run_env r2) ''Contents.json''"
    unfolding f1 f2 by (simp add: c)
  show "\<forall>spec \<in> set sizes. files (run_env r1) (icon_filename (actual_size spec)) =
                            files (run_env r2) (icon_filename (actual_size spec))"
  proof
    fix spec
    assume s: "spec \<in> set sizes"
    from pipeline_icon[OF p1 s] pipeline_icon[OF p2 s] m
    show "files (run_env r1) (icon_filename (actual_size spec)) =
          files (run_env r2) (icon_filename (actual_size spec))" by auto
  qed
  show "\<forall>name. files (run_env r1) name = files (run_env r2) name \<or>
               (files (run_env r1) name = files w1 name \<and> files (run_env r2) name = files w2 name)"
  proof
    fix name
    from icon_files_indep[of pil "run_master r1" sizes "files w1" name "files w2"]
    show "files (run_env r1) name = files (run_env r2) name \<or>
               (files (run_env r1) name = files w1 name \<and> files (run_env r2) name = files w2 name)"
      unfolding f1 f2 m c by (cases "name = ''Contents.json''") auto
  qed
next
  assume a: "main pil w1 = Some (Inr r1)"
  then have p1: "pipeline pil sizes w1 = Some (Inr r1)" by (simp add: main_def)
  from pipeline_Inr[OF p1] have "dir_ok (run_env r1)" by blast
  from main_ok[OF this, of pil] obtain r where r: "main pil (run_env r1) = Some (Inr r)" by blast
  then have p: "pipeline pil sizes (run_env r1) = Some (Inr r)" by (simp add: main_def)
  from pipeline_master(1)[OF p1] pipeline_master(1)[OF p] have m: "run_master r = run_master r1"
    by simp
  from a r main_contents[of pil w1 r1] main_contents[of pil "run_env r1" r]
  have "images (run_contents r) = images (run_contents r1)"
    "info (run_contents r) = info (run_contents r1)" by simp_all
  then have c: "run_contents r = run_contents r1" by (rule manifest.equality) simp
  note f1 = pipeline_files(1)[OF p1] and f = pipeline_files(1)[OF p]
  have "files (run_env r) name = files (run_env r1) name" for name
  proof (cases "name = ''Contents.json''")
    case True
    then show ?thesis unfolding f f1 by (simp add: c)
  next
    case False
    from icon_files_indep[of pil "run_master r1" sizes "files (run_env r1)" name "files w1"]
    have "icon_files pil (run_master r1) sizes (files (run_env r1)) name =
          icon_files pil (run_master r1) sizes (files w1) name"
      using False unfolding f1 by auto
    then show ?thesis using False unfolding f m f1 by simp
  qed
  then have "files (run_env r) = files (run_env r1)" by (rule ext)
  with r c m show "\<exists>r. main pil (run_env r1) = Some (Inr r) \<and> files (run_env r) = files (run_env r1) \<and>
             run_contents r = run_contents r1 \<and> run_master r = run_master r1" by blast
qed

theorem pipeline_deterministic_witness:
  "\<exists>r1 r2. main coarse_pillow empty_dir = Some (Inr r1) \<and>
      main coarse_pillow (print empty_dir ''earlier run'') = Some (Inr r2) \<and>
      run_master r1 = run_master r2 \<and> run_contents r1 = run_contents r2 \<and>
      files (run_env r1) = files (run_env r2)"
proof -
  have d: "dir_ok empty_dir" "dir_ok (print empty_dir ''earlier run'')"
    by (simp_all add: empty_dir_def print_def)
  from main_ok[OF d(1), of coarse_pillow] obtain r1 where
    r1: "main coarse_pillow empty_dir = Some (Inr r1)" by blast
  from main_ok[OF d(2), of coarse_pillow] obtain r2 where
    r2: "main coarse_pillow (print empty_dir ''earlier run'') = Some (Inr r2)" by blast
  note t = pipeline_deterministic[of coarse_pillow empty_dir r1 "print empty_dir ''earlier run''" r2]
  from t r1 r2 have e: "run_master r1 = run_master r2" "run_contents r1 = run_contents r2"
    and n: "\<And>name. files (run_env r1) name = files (run_env r2) name \<or>
               (files (run_env r1) name = files empty_dir name \<and>
                files (run_env r2) name = files (print empty_dir ''earlier run'') name)"
    by blast+
  have "files (run_env r1) name = files (run_env r2) name" for name
    using n[of name] by (auto simp: print_def)
  then have "files (run_env r1) = files (run_env r2)" by (rule ext)
  with r1 r2 e show ?thesis by blast
qed

end
